theory Spec2Isabelle
  imports Complex_Main "HOL-Library.AList" "HOL-Library.Char_ord" "HOL-Library.List_Lexorder"
begin

section \<open>Data model (app/models/circuit.py)\<close>

text \<open>
  Python dictionaries keep insertion order and several loops of the program iterate over
  them, so a dictionary is an association list; \<open>d[k] = v\<close> is \<^const>\<open>AList.update\<close>
  (replace in place, or append a new key at the end), \<open>k in d\<close> and \<open>d[k]\<close> are
  \<^const>\<open>map_of\<close>. Delays are Python floats, modelled as exact reals. Every exception
  the code raises is a value of \<open>error\<close>; the \<open>ValueError\<close>s are told apart by the
  message they carry.
\<close>

datatype value_error =
    UnknownInputId string
  | GateInputUnresolved string string
  | InputHasNoValue string
  | NotGateArity string nat
  | UnsupportedGateType string
  | CycleInCircuit
  | OutputUnresolved string string

datatype error =
    CircuitParseError
  | IndexError
  | KeyError string
  | ValueError value_error

record LogicGate =
  g_id :: string
  g_type :: string
  g_delay :: real
  g_inputs :: "string list"
  g_output :: string

record input_data =
  in_name :: string
  initial_value :: int

record output_data =
  out_name :: string
  source :: string

record connection =
  conn_from :: string
  conn_to :: string
  conn_delay :: real

record Circuit =
  name :: string
  gates :: "(string \<times> LogicGate) list"
  inputs :: "(string \<times> input_data) list"
  outputs :: "(string \<times> output_data) list"
  connections :: "connection list"

definition has_key :: "('k \<times> 'v) list \<Rightarrow> 'k \<Rightarrow> bool" where
  "has_key d k = (case map_of d k of None \<Rightarrow> False | Some v \<Rightarrow> True)"

definition new_circuit :: "string \<Rightarrow> Circuit" where
  "new_circuit n = \<lparr>name = n, gates = [], inputs = [], outputs = [], connections = []\<rparr>"

definition add_gate :: "Circuit \<Rightarrow> LogicGate \<Rightarrow> Circuit" where
  "add_gate c gate = c\<lparr>gates := AList.update (g_id gate) gate (gates c)\<rparr>"

definition add_input :: "Circuit \<Rightarrow> string \<Rightarrow> string \<Rightarrow> int \<Rightarrow> Circuit" where
  "add_input c input_id nm v =
     c\<lparr>inputs := AList.update input_id \<lparr>in_name = nm, initial_value = v\<rparr> (inputs c)\<rparr>"

definition add_output :: "Circuit \<Rightarrow> string \<Rightarrow> string \<Rightarrow> string \<Rightarrow> Circuit" where
  "add_output c output_id nm src =
     c\<lparr>outputs := AList.update output_id \<lparr>out_name = nm, source = src\<rparr> (outputs c)\<rparr>"

definition add_connection :: "Circuit \<Rightarrow> string \<Rightarrow> string \<Rightarrow> real \<Rightarrow> Circuit" where
  "add_connection c from_id to_id d =
     c\<lparr>connections := connections c @ [\<lparr>conn_from = from_id, conn_to = to_id, conn_delay = d\<rparr>]\<rparr>"

subsection \<open>LogicGate.compute_output\<close>

definition compute_output :: "LogicGate \<Rightarrow> (string \<times> int) list \<Rightarrow> error + int" where
  "compute_output gate input_values =
     (case find (\<lambda>input_id. \<not> has_key input_values input_id) (g_inputs gate) of
        Some input_id \<Rightarrow> Inl (ValueError (InputHasNoValue input_id))
      | None \<Rightarrow>
          if g_type gate = ''AND'' then
            Inr (if list_all (\<lambda>input_id. map_of input_values input_id = Some 1) (g_inputs gate)
                 then 1 else 0)
          else if g_type gate = ''OR'' then
            Inr (if list_ex (\<lambda>input_id. map_of input_values input_id = Some 1) (g_inputs gate)
                 then 1 else 0)
          else if g_type gate = ''NOT'' then
            (case g_inputs gate of
               [input_id] \<Rightarrow>
                 (case map_of input_values input_id of
                    Some v \<Rightarrow> Inr (1 - v)
                  | None \<Rightarrow> Inl (KeyError input_id))
             | _ \<Rightarrow> Inl (ValueError (NotGateArity (g_id gate) (length (g_inputs gate)))))
          else Inl (ValueError (UnsupportedGateType (g_type gate))))"

subsection \<open>Circuit._topological_sort (Kahn's algorithm)\<close>

text \<open>
  \<open>graph\<close> and \<open>in_degree\<close> are seeded with one entry per gate, in the order of the gate
  dictionary; the loop over the connections only looks at connections between two gates.
\<close>

type_synonym graph = "(string \<times> string list) list"
type_synonym in_degree = "(string \<times> int) list"

fun build_graph :: "Circuit \<Rightarrow> connection list \<Rightarrow> graph \<Rightarrow> in_degree \<Rightarrow> error + (graph \<times> in_degree)" where
  "build_graph c [] graph in_degree = Inr (graph, in_degree)"
| "build_graph c (conn # conns) graph in_degree =
     (if has_key (gates c) (conn_from conn) \<and> has_key (gates c) (conn_to conn) then
        (case map_of graph (conn_from conn) of
           None \<Rightarrow> Inl (KeyError (conn_from conn))
         | Some ns \<Rightarrow>
             (case map_of in_degree (conn_to conn) of
                None \<Rightarrow> Inl (KeyError (conn_to conn))
              | Some d \<Rightarrow>
                  build_graph c conns
                    (AList.update (conn_from conn) (ns @ [conn_to conn]) graph)
                    (AList.update (conn_to conn) (d + 1) in_degree)))
      else build_graph c conns graph in_degree)"

text \<open>The inner \<open>for neighbor in graph[gate_id]\<close> loop.\<close>

fun relax :: "string list \<Rightarrow> in_degree \<Rightarrow> string list \<Rightarrow> error + (in_degree \<times> string list)" where
  "relax [] in_degree queue = Inr (in_degree, queue)"
| "relax (neighbor # ns) in_degree queue =
     (case map_of in_degree neighbor of
        None \<Rightarrow> Inl (KeyError neighbor)
      | Some d \<Rightarrow>
          relax ns (AList.update neighbor (d - 1) in_degree)
            (if d - 1 = 0 then queue @ [neighbor] else queue))"

definition degree_weight :: "in_degree \<Rightarrow> nat" where
  "degree_weight in_degree = sum_list (map (\<lambda>kd. nat (snd kd)) in_degree)"

text \<open>The \<open>while queue\<close> loop: \<open>queue.pop(0)\<close>, append to \<open>sorted_gates\<close>, relax the neighbours.\<close>

function kahn_loop :: "graph \<Rightarrow> string list \<Rightarrow> string list \<Rightarrow> in_degree \<Rightarrow> error + string list" where
  "kahn_loop graph [] sorted_gates in_degree = Inr sorted_gates"
| "kahn_loop graph (gate_id # queue) sorted_gates in_degree =
     (case map_of graph gate_id of
        None \<Rightarrow> Inl (KeyError gate_id)
      | Some ns \<Rightarrow>
          (case relax ns in_degree queue of
             Inl e \<Rightarrow> Inl e
           | Inr (in_degree', queue') \<Rightarrow>
               kahn_loop graph queue' (sorted_gates @ [gate_id]) in_degree'))"
  by pat_completeness auto
termination
proof (relation "measure (\<lambda>(graph, queue, sorted_gates, in_degree). length queue + degree_weight in_degree)")
  show "wf (measure (\<lambda>(graph, queue, sorted_gates, in_degree). length queue + degree_weight in_degree))"
    by simp
next
  fix graph :: graph and gate_id queue sorted_gates and in_degree :: in_degree
    and ns x in_degree' queue'
  assume "relax ns in_degree queue = Inr x" and "(in_degree', queue') = x"
  then have run: "relax ns in_degree queue = Inr (in_degree', queue')" by simp
  have upd: "degree_weight (AList.update k d' xs) + nat d = degree_weight xs + nat d'"
    if "map_of xs k = Some d" for xs :: in_degree and k d d'
    using that by (induction xs) (auto simp: degree_weight_def)
  have "length q' + degree_weight deg' \<le> length q + degree_weight deg"
    if "relax ms deg q = Inr (deg', q')" for ms deg q deg' q'
    using that
  proof (induction ms arbitrary: deg q)
    case Nil
    then show ?case by simp
  next
    case (Cons n ms)
    from Cons.prems obtain d where d: "map_of deg n = Some d"
      by (auto split: option.splits)
    let ?deg = "AList.update n (d - 1) deg"
    let ?q = "if d - 1 = 0 then q @ [n] else q"
    from Cons.prems d have "relax ms ?deg ?q = Inr (deg', q')"
      by simp
    then have "length q' + degree_weight deg' \<le> length ?q + degree_weight ?deg"
      by (rule Cons.IH)
    moreover have "length ?q + degree_weight ?deg \<le> length q + degree_weight deg"
      using upd [OF d, of "d - 1"] by (auto split: if_splits)
    ultimately show ?case by linarith
  qed
  from this [OF run]
  show "((graph, queue', sorted_gates @ [gate_id], in_degree'),
         (graph, gate_id # queue, sorted_gates, in_degree))
        \<in> measure (\<lambda>(graph, queue, sorted_gates, in_degree). length queue + degree_weight in_degree)"
    by simp
qed

definition topological_sort :: "Circuit \<Rightarrow> error + string list" where
  "topological_sort c =
     (case build_graph c (connections c)
             (map (\<lambda>kg. (fst kg, [])) (gates c)) (map (\<lambda>kg. (fst kg, 0)) (gates c)) of
        Inl e \<Rightarrow> Inl e
      | Inr (graph, in_degree) \<Rightarrow>
          (case kahn_loop graph (map fst (filter (\<lambda>kd. snd kd = 0) in_degree)) [] in_degree of
             Inl e \<Rightarrow> Inl e
           | Inr sorted_gates \<Rightarrow>
               if length sorted_gates = length (gates c) then Inr sorted_gates
               else Inl (ValueError CycleInCircuit)))"

subsection \<open>Circuit.compute_circuit\<close>

fun validate_input_values :: "Circuit \<Rightarrow> (string \<times> int) list \<Rightarrow> error + unit" where
  "validate_input_values c [] = Inr ()"
| "validate_input_values c (kv # rest) =
     (if has_key (inputs c) (fst kv) then validate_input_values c rest
      else Inl (ValueError (UnknownInputId (fst kv))))"

fun collect_inputs :: "string \<Rightarrow> string list \<Rightarrow> (string \<times> int) list \<Rightarrow> (string \<times> int) list \<Rightarrow> error + (string \<times> int) list" where
  "collect_inputs gate_id [] results gate_inputs = Inr gate_inputs"
| "collect_inputs gate_id (input_id # rest) results gate_inputs =
     (case map_of results input_id of
        Some v \<Rightarrow> collect_inputs gate_id rest results (AList.update input_id v gate_inputs)
      | None \<Rightarrow> Inl (ValueError (GateInputUnresolved gate_id input_id)))"

fun compute_gates :: "Circuit \<Rightarrow> string list \<Rightarrow> (string \<times> int) list \<Rightarrow> error + (string \<times> int) list" where
  "compute_gates c [] results = Inr results"
| "compute_gates c (gate_id # rest) results =
     (case map_of (gates c) gate_id of
        None \<Rightarrow> Inl (KeyError gate_id)
      | Some gate \<Rightarrow>
          (case collect_inputs gate_id (g_inputs gate) results [] of
             Inl e \<Rightarrow> Inl e
           | Inr gate_inputs \<Rightarrow>
               (case compute_output gate gate_inputs of
                  Inl e \<Rightarrow> Inl e
                | Inr v \<Rightarrow> compute_gates c rest (AList.update gate_id v results))))"

fun compute_outputs :: "(string \<times> output_data) list \<Rightarrow> (string \<times> int) list \<Rightarrow> (string \<times> int) list \<Rightarrow> error + (string \<times> int) list" where
  "compute_outputs [] results output_results = Inr output_results"
| "compute_outputs (od # rest) results output_results =
     (case map_of results (source (snd od)) of
        Some v \<Rightarrow> compute_outputs rest results (AList.update (fst od) v output_results)
      | None \<Rightarrow> Inl (ValueError (OutputUnresolved (fst od) (source (snd od)))))"

text \<open>The dictionary \<open>{input_id: data["initial_value"] for input_id, data in self.inputs.items()}\<close>.\<close>

definition initial_values :: "Circuit \<Rightarrow> (string \<times> int) list" where
  "initial_values c = fold (\<lambda>kd d. AList.update (fst kd) (initial_value (snd kd)) d) (inputs c) []"

text \<open>
  \<open>input_values\<close> defaults to \<open>None\<close>; the test is \<open>input_values is None\<close>, so an empty
  dictionary takes the \<open>else\<close> branch.
\<close>

definition compute_circuit :: "Circuit \<Rightarrow> (string \<times> int) list option \<Rightarrow> error + (string \<times> int) list" where
  "compute_circuit c input_values =
     (case (case input_values of
              None \<Rightarrow> Inr (initial_values c)
            | Some given \<Rightarrow>
                (case validate_input_values c given of Inl e \<Rightarrow> Inl e | Inr u \<Rightarrow> Inr given)) of
        Inl e \<Rightarrow> Inl e
      | Inr seed \<Rightarrow>
          (case topological_sort c of
             Inl e \<Rightarrow> Inl e
           | Inr sorted_gates \<Rightarrow>
               (case compute_gates c sorted_gates seed of
                  Inl e \<Rightarrow> Inl e
                | Inr results \<Rightarrow>
                    (case compute_outputs (outputs c) results [] of
                       Inl e \<Rightarrow> Inl e
                     | Inr output_results \<Rightarrow>
                         Inr (fold (\<lambda>kv d. AList.update (fst kv) (snd kv) d) output_results results)))))"

section \<open>Expression parser (app/services/parser.py)\<close>

text \<open>
  \<open>str.upper\<close>, \<open>str.lower\<close>, \<open>str.isalpha\<close> and \<open>str.isspace\<close> are modelled on the
  7-bit characters, where they are the usual tables; the model is that of Python for ASCII
  strings only (outside them Python changes the case of, and counts as letters or as white
  space, characters that the tables leave alone), so a property of arbitrary expressions
  is stated for ASCII expressions.
\<close>

definition lowercase_letters :: string where
  "lowercase_letters = ''abcdefghijklmnopqrstuvwxyz''"

definition uppercase_letters :: string where
  "uppercase_letters = ''ABCDEFGHIJKLMNOPQRSTUVWXYZ''"

definition upper_char :: "char \<Rightarrow> char" where
  "upper_char ch =
     (case map_of (zip lowercase_letters uppercase_letters) ch of Some u \<Rightarrow> u | None \<Rightarrow> ch)"

definition lower_char :: "char \<Rightarrow> char" where
  "lower_char ch =
     (case map_of (zip uppercase_letters lowercase_letters) ch of Some l \<Rightarrow> l | None \<Rightarrow> ch)"

definition upper :: "string \<Rightarrow> string" where
  "upper s = map upper_char s"

definition lower :: "string \<Rightarrow> string" where
  "lower s = map lower_char s"

definition isspace :: "char \<Rightarrow> bool" where
  "isspace ch = (of_char ch \<in> set [9, 10, 11, 12, 13, 28, 29, 30, 31, 32 :: nat])"

definition isalpha :: "string \<Rightarrow> bool" where
  "isalpha s = (s \<noteq> [] \<and> list_all (\<lambda>ch. ch \<in> set (lowercase_letters @ uppercase_letters)) s)"

definition strip :: "string \<Rightarrow> string" where
  "strip s = rev (dropWhile isspace (rev (dropWhile isspace s)))"

text \<open>
  \<open>s.replace(old, new)\<close> for a non-empty \<open>old\<close> (the parser calls it with \<open>AND\<close>,
  \<open>OR\<close> and \<open>NOT\<close>): occurrences are replaced from left to right, without overlap.
\<close>

function replace :: "string \<Rightarrow> string \<Rightarrow> string \<Rightarrow> string" where
  "replace old new [] = []"
| "replace old new (ch # s) =
     (if old \<noteq> [] \<and> take (length old) (ch # s) = old
      then new @ replace old new (drop (length old) (ch # s))
      else ch # replace old new s)"
  by pat_completeness auto
termination
  by (relation "measure (\<lambda>(old, new, s). length s)") (auto simp: neq_Nil_conv)

text \<open>\<open>str(n)\<close> for the gate counter.\<close>

fun str :: "nat \<Rightarrow> string" where
  "str n = (if n < 10 then [''0123456789'' ! n] else str (n div 10) @ [''0123456789'' ! (n mod 10)])"

declare str.simps [simp del]

record CircuitParser =
  gate_id_counter :: nat

definition generate_gate_id :: "CircuitParser \<Rightarrow> CircuitParser \<times> string" where
  "generate_gate_id p =
     (p\<lparr>gate_id_counter := gate_id_counter p + 1\<rparr>, ''g'' @ str (gate_id_counter p + 1))"

subsection \<open>_tokenize\<close>

fun tokenize_loop :: "string \<Rightarrow> string list \<Rightarrow> string \<Rightarrow> string list \<times> string" where
  "tokenize_loop [] tokens current = (tokens, current)"
| "tokenize_loop (ch # rest) tokens current =
     (if ch \<in> set ''&|!()'' then
        tokenize_loop rest
          ((if current = [] then tokens else tokens @ [strip current]) @ [[ch]]) []
      else if isspace ch then
        tokenize_loop rest (if current = [] then tokens else tokens @ [strip current]) []
      else tokenize_loop rest tokens (current @ [ch]))"

definition tokenize :: "string \<Rightarrow> string list" where
  "tokenize expression =
     (case tokenize_loop
             (replace ''NOT'' ''!'' (replace ''OR'' ''|'' (replace ''AND'' ''&'' (upper expression))))
             [] [] of
        (tokens, current) \<Rightarrow> if current = [] then tokens else tokens @ [strip current])"

subsection \<open>_extract_inputs\<close>

text \<open>
  The tokens are collected in a \<open>set\<close> and returned as \<open>sorted(list(inputs))\<close>: the
  distinct operands in ascending order of Python's string comparison, which is the
  lexicographic order on the characters.
\<close>

definition extract_inputs :: "string list \<Rightarrow> string list" where
  "extract_inputs tokens =
     sort (remdups (filter (\<lambda>token. isalpha token \<and> token \<notin> set [''AND'', ''OR'', ''NOT'']) tokens))"

subsection \<open>_create_gate and _build_gates\<close>

text \<open>
  The operand stack and the operator stack are Python lists used with \<open>append\<close>,
  \<open>pop()\<close> and \<open>[-1]\<close>; here the head of the list is the top of the stack. \<open>pop()\<close> on
  an empty list raises \<open>IndexError\<close>.
\<close>

definition precedence :: "string \<Rightarrow> nat" where
  "precedence operator =
     (if operator = ''!'' then 3 else if operator = ''&'' then 2 else if operator = ''|'' then 1 else 0)"

definition create_gate :: "CircuitParser \<Rightarrow> Circuit \<Rightarrow> string \<Rightarrow> string list \<Rightarrow> error + (CircuitParser \<times> Circuit \<times> string list)" where
  "create_gate p circuit operator stack =
     (case generate_gate_id p of
        (p', gate_id) \<Rightarrow>
          if operator = ''!'' then
            (case stack of
               [] \<Rightarrow> Inl IndexError
             | input_id # stack' \<Rightarrow>
                 Inr (p',
                      add_connection
                        (add_gate circuit
                           \<lparr>g_id = gate_id, g_type = ''NOT'', g_delay = 1.0,
                            g_inputs = [input_id], g_output = gate_id\<rparr>)
                        input_id gate_id 0.1,
                      gate_id # stack'))
          else
            (case stack of
               input2 # input1 # stack' \<Rightarrow>
                 Inr (p',
                      add_connection
                        (add_connection
                           (add_gate circuit
                              \<lparr>g_id = gate_id, g_type = (if operator = ''&'' then ''AND'' else ''OR''),
                               g_delay = 2.0, g_inputs = [input1, input2], g_output = gate_id\<rparr>)
                           input1 gate_id 0.1)
                        input2 gate_id 0.1,
                      gate_id # stack')
             | _ \<Rightarrow> Inl IndexError))"

text \<open>
  The three \<open>while\<close> loops of \<open>_build_gates\<close>: before a binary operator is pushed, at a
  closing parenthesis, and after the last token.
\<close>

fun reduce_pending :: "string \<Rightarrow> string list \<Rightarrow> CircuitParser \<Rightarrow> Circuit \<Rightarrow> string list \<Rightarrow> error + (string list \<times> CircuitParser \<times> Circuit \<times> string list)" where
  "reduce_pending token [] p circuit stack = Inr ([], p, circuit, stack)"
| "reduce_pending token (operator # operators) p circuit stack =
     (if operator = ''('' then Inr (operator # operators, p, circuit, stack)
      else if precedence operator \<ge> precedence token then
        (case create_gate p circuit operator stack of
           Inl e \<Rightarrow> Inl e
         | Inr (p', circuit', stack') \<Rightarrow> reduce_pending token operators p' circuit' stack')
      else Inr (operator # operators, p, circuit, stack))"

fun reduce_to_paren :: "string list \<Rightarrow> CircuitParser \<Rightarrow> Circuit \<Rightarrow> string list \<Rightarrow> error + (string list \<times> CircuitParser \<times> Circuit \<times> string list)" where
  "reduce_to_paren [] p circuit stack = Inr ([], p, circuit, stack)"
| "reduce_to_paren (operator # operators) p circuit stack =
     (if operator = ''('' then Inr (operator # operators, p, circuit, stack)
      else
        (case create_gate p circuit operator stack of
           Inl e \<Rightarrow> Inl e
         | Inr (p', circuit', stack') \<Rightarrow> reduce_to_paren operators p' circuit' stack'))"

fun reduce_all :: "string list \<Rightarrow> CircuitParser \<Rightarrow> Circuit \<Rightarrow> string list \<Rightarrow> error + (CircuitParser \<times> Circuit \<times> string list)" where
  "reduce_all [] p circuit stack = Inr (p, circuit, stack)"
| "reduce_all (operator # operators) p circuit stack =
     (case create_gate p circuit operator stack of
        Inl e \<Rightarrow> Inl e
      | Inr (p', circuit', stack') \<Rightarrow> reduce_all operators p' circuit' stack')"

fun build_loop :: "string list \<Rightarrow> string list \<Rightarrow> CircuitParser \<Rightarrow> Circuit \<Rightarrow> string list \<Rightarrow> error + (string list \<times> CircuitParser \<times> Circuit \<times> string list)" where
  "build_loop [] operators p circuit stack = Inr (operators, p, circuit, stack)"
| "build_loop (token # tokens) operators p circuit stack =
     (if token = ''&'' \<or> token = ''|'' then
        (case reduce_pending token operators p circuit stack of
           Inl e \<Rightarrow> Inl e
         | Inr (operators', p', circuit', stack') \<Rightarrow>
             build_loop tokens (token # operators') p' circuit' stack')
      else if token = ''!'' then build_loop tokens (token # operators) p circuit stack
      else if token = ''('' then build_loop tokens (token # operators) p circuit stack
      else if token = '')'' then
        (case reduce_to_paren operators p circuit stack of
           Inl e \<Rightarrow> Inl e
         | Inr (operators', p', circuit', stack') \<Rightarrow>
             build_loop tokens
               (case operators' of [] \<Rightarrow> [] | operator # rest \<Rightarrow> if operator = ''('' then rest else operator # rest)
               p' circuit' stack')
      else build_loop tokens operators p circuit (lower token # stack))"

definition build_gates :: "CircuitParser \<Rightarrow> Circuit \<Rightarrow> string list \<Rightarrow> error + (CircuitParser \<times> Circuit \<times> string)" where
  "build_gates p circuit tokens =
     (case build_loop tokens [] p circuit [] of
        Inl e \<Rightarrow> Inl e
      | Inr (operators, p', circuit', stack') \<Rightarrow>
          (case reduce_all operators p' circuit' stack' of
             Inl e \<Rightarrow> Inl e
           | Inr (p'', circuit'', stack'') \<Rightarrow>
               (case stack'' of
                  [] \<Rightarrow> Inl IndexError
                | output_id # below \<Rightarrow> Inr (p'', circuit'', output_id))))"

subsection \<open>parse\<close>

definition parse :: "CircuitParser \<Rightarrow> string \<Rightarrow> error + (CircuitParser \<times> Circuit)" where
  "parse p expression =
     (if expression = [] then Inl CircuitParseError
      else
        (case build_gates p
                (fold (\<lambda>var circuit. add_input circuit (lower var) var 0)
                   (extract_inputs (tokenize expression)) (new_circuit ''parsed_circuit''))
                (tokenize expression) of
           Inl e \<Rightarrow> Inl e
         | Inr (p', circuit, output_id) \<Rightarrow> Inr (p', add_output circuit ''out1'' ''Y'' output_id)))"

text \<open>A parser as \<open>CircuitParser()\<close> creates it.\<close>

definition new_parser :: CircuitParser where
  "new_parser = \<lparr>gate_id_counter = 0\<rparr>"

section \<open>Race and hazard detector (app/services/detector.py)\<close>

text \<open>
  The detector reads the circuit and never changes it. Its only state besides the logger
  is \<open>self.paths\<close>, a cache of \<open>_find_all_paths_to_gate\<close> by node id; the cached value
  is what the search returns for that node on the same circuit, so the model calls the
  search and keeps no cache. Log messages and the \<open>description\<close> strings of the result
  records are left out; the three hazard kinds are the three strings the code uses.
\<close>

datatype hazard_type = Static0 | Static1 | Dynamic

datatype sval = Const int | SpecialVariable string string | NegatedVariable string string

record race_condition =
  rc_gate_id :: string
  rc_gate_type :: string
  rc_input1 :: string
  rc_input2 :: string
  rc_delay1 :: real
  rc_delay2 :: real

record gate_hazard =
  gh_type :: hazard_type
  gh_variable_id :: string
  gh_special_var_ports :: "string list"
  gh_negated_var_ports :: "string list"

record hazard_gate =
  hg_gate_id :: string
  hg_gate_type :: string
  hg_inputs :: "string list"
  hg_hazard_type :: hazard_type
  hg_critical :: bool

record hazard =
  hz_variable :: string
  hz_other_inputs :: "(string \<times> int) list option"
  hz_hazard_type :: hazard_type
  hz_hazard_gates :: "hazard_gate list"

record var_info =
  vi_variable :: string
  vi_id :: string
  vi_negation_paths :: "string list list"
  vi_original_paths :: "string list list"
  vi_direct_not_gates :: "string list"
  vi_has_convergence :: bool
  vi_convergence_points :: "string list"

record detection_results =
  race_conditions :: "race_condition list"
  hazards :: "hazard list"

subsection \<open>_find_all_paths_to_gate and _calculate_path_delay\<close>

text \<open>
  The nested \<open>dfs\<close>: \<open>visited\<close> holds the nodes of the current branch (a node is added
  before the recursive calls and removed after them), \<open>max_depth\<close> is 100.
\<close>

function dfs :: "Circuit \<Rightarrow> string set \<Rightarrow> string \<Rightarrow> string list \<Rightarrow> nat \<Rightarrow> string list list" where
  "dfs c visited current path depth =
     (if depth > 100 then []
      else if has_key (inputs c) current then [path]
      else if current \<in> visited then []
      else concat (map (\<lambda>conn. dfs c (insert current visited) (conn_from conn)
                                  (conn_from conn # path) (depth + 1))
                       (filter (\<lambda>conn. conn_to conn = current) (connections c))))"
  by pat_completeness auto
termination
  by (relation "measure (\<lambda>(c, visited, current, path, depth). 101 - depth)") auto

declare dfs.simps [simp del]

definition find_all_paths_to_gate :: "Circuit \<Rightarrow> string \<Rightarrow> string list list" where
  "find_all_paths_to_gate c gate_id = dfs c {} gate_id [gate_id] 0"

text \<open>
  Delays are Python floats; the model adds and compares them as real numbers, without the
  rounding of floating-point addition.
\<close>

fun connection_delays :: "Circuit \<Rightarrow> string list \<Rightarrow> real" where
  "connection_delays c (a # b # rest) =
     (case find (\<lambda>conn. conn_from conn = a \<and> conn_to conn = b) (connections c) of
        Some conn \<Rightarrow> conn_delay conn
      | None \<Rightarrow> 0) + connection_delays c (b # rest)"
| "connection_delays c path = 0"

definition calculate_path_delay :: "Circuit \<Rightarrow> string list \<Rightarrow> real" where
  "calculate_path_delay c path =
     sum_list (map (\<lambda>gate_id. case map_of (gates c) gate_id of
                                 Some gate \<Rightarrow> g_delay gate | None \<Rightarrow> 0) path)
     + connection_delays c path"

subsection \<open>_calculate_input_delays and _detect_race_conditions\<close>

definition calculate_input_delays :: "Circuit \<Rightarrow> LogicGate \<Rightarrow> (string \<times> real) list" where
  "calculate_input_delays c gate =
     fold (\<lambda>input_id delays.
             AList.update input_id
               (case map (calculate_path_delay c) (find_all_paths_to_gate c input_id) of
                  [] \<Rightarrow> 0
                | d # ds \<Rightarrow> fold max ds d)
               delays)
          (g_inputs gate) []"

fun race_pairs :: "string \<Rightarrow> LogicGate \<Rightarrow> (string \<times> real) list \<Rightarrow> race_condition list" where
  "race_pairs gate_id gate [] = []"
| "race_pairs gate_id gate (first # rest) =
     map (\<lambda>second. \<lparr>rc_gate_id = gate_id, rc_gate_type = g_type gate,
                     rc_input1 = fst first, rc_input2 = fst second,
                     rc_delay1 = snd first, rc_delay2 = snd second\<rparr>)
         (filter (\<lambda>second. \<bar>snd first - snd second\<bar> < 0.5) rest)
     @ race_pairs gate_id gate rest"

definition detect_race_conditions :: "Circuit \<Rightarrow> race_condition list" where
  "detect_race_conditions c =
     concat (map (\<lambda>kg. if length (g_inputs (snd kg)) > 1
                        then race_pairs (fst kg) (snd kg) (calculate_input_delays c (snd kg))
                        else [])
                 (gates c))"

subsection \<open>_find_variable_paths and _find_variables_with_negation\<close>

definition find_variable_paths :: "Circuit \<Rightarrow> string \<Rightarrow> string list list" where
  "find_variable_paths c var_id =
     concat (map (\<lambda>ko. filter (\<lambda>path. var_id \<in> set path)
                               (find_all_paths_to_gate c (source (snd ko))))
                 (outputs c))"

text \<open>The element of \<open>path\<close> right after the first occurrence of \<open>x\<close>, if there is one.\<close>

fun next_after :: "string \<Rightarrow> string list \<Rightarrow> string option" where
  "next_after x (y # z # rest) = (if y = x then Some z else next_after x (z # rest))"
| "next_after x path = None"

definition is_not_gate :: "Circuit \<Rightarrow> string \<Rightarrow> bool" where
  "is_not_gate c gate_id =
     (case map_of (gates c) gate_id of None \<Rightarrow> False | Some gate \<Rightarrow> g_type gate = ''NOT'')"

definition direct_not_gates :: "Circuit \<Rightarrow> string \<Rightarrow> string list" where
  "direct_not_gates c input_id =
     map conn_to (filter (\<lambda>conn. conn_from conn = input_id \<and> is_not_gate c (conn_to conn))
                         (connections c))"

text \<open>
  \<open>convergence_points\<close> is a Python \<open>set\<close> turned into a list, whose order the language
  leaves open; the model lists its elements in ascending order.
\<close>

definition variable_info :: "Circuit \<Rightarrow> string \<Rightarrow> input_data \<Rightarrow> var_info" where
  "variable_info c input_id input_data =
     (let nots = direct_not_gates c input_id;
          var_paths = find_variable_paths c input_id;
          negation_paths =
            filter (\<lambda>path. case next_after input_id path of
                              None \<Rightarrow> False | Some nxt \<Rightarrow> nxt \<in> set nots) var_paths;
          original_paths =
            filter (\<lambda>path. case next_after input_id path of
                              None \<Rightarrow> False | Some nxt \<Rightarrow> nxt \<notin> set nots) var_paths;
          common_gates =
            sort (remdups (filter (\<lambda>gate_id. gate_id \<in> set (concat negation_paths)
                                             \<and> gate_id \<notin> set (input_id # nots))
                                  (concat original_paths)))
      in \<lparr>vi_variable = in_name input_data, vi_id = input_id,
          vi_negation_paths = negation_paths, vi_original_paths = original_paths,
          vi_direct_not_gates = nots,
          vi_has_convergence = (common_gates \<noteq> []),
          vi_convergence_points = common_gates\<rparr>)"

definition find_variables_with_negation :: "Circuit \<Rightarrow> var_info list" where
  "find_variables_with_negation c =
     map (\<lambda>kd. variable_info c (fst kd) (snd kd))
         (filter (\<lambda>kd. direct_not_gates c (fst kd) \<noteq> []) (inputs c))"

subsection \<open>_collect_gate_inputs\<close>

fun assign_port :: "string list \<Rightarrow> string \<Rightarrow> (string \<times> string) list \<Rightarrow> (string \<times> string) list" where
  "assign_port [] source_id port_map = port_map"
| "assign_port (input_port # ports) source_id port_map =
     (if has_key port_map input_port then assign_port ports source_id port_map
      else AList.update input_port source_id port_map)"

definition input_port_to_source :: "Circuit \<Rightarrow> string \<Rightarrow> LogicGate \<Rightarrow> (string \<times> string) list" where
  "input_port_to_source c gate_id gate =
     fold (\<lambda>conn port_map. if conn_to conn = gate_id
                            then assign_port (g_inputs gate) (conn_from conn) port_map
                            else port_map)
          (connections c) []"

definition collect_gate_inputs :: "Circuit \<Rightarrow> string \<Rightarrow> LogicGate \<Rightarrow> (string \<times> sval) list \<Rightarrow> (string \<times> sval) list" where
  "collect_gate_inputs c gate_id gate circuit_state =
     map (\<lambda>ps. (fst ps, case map_of circuit_state (snd ps) of
                           Some v \<Rightarrow> v | None \<Rightarrow> Const 0))
         (input_port_to_source c gate_id gate)"

subsection \<open>_check_gate_for_hazard\<close>

definition add_port :: "string \<Rightarrow> string \<Rightarrow> (string \<times> string list) list \<Rightarrow> (string \<times> string list) list" where
  "add_port var_id input_port ports =
     AList.update var_id
       ((case map_of ports var_id of None \<Rightarrow> [] | Some ps \<Rightarrow> ps) @ [input_port]) ports"

definition special_var_ports :: "(string \<times> sval) list \<Rightarrow> (string \<times> string list) list" where
  "special_var_ports gate_inputs =
     fold (\<lambda>pv ports. case snd pv of
                         SpecialVariable var_id var_name \<Rightarrow> add_port var_id (fst pv) ports
                       | _ \<Rightarrow> ports)
          gate_inputs []"

definition negated_var_ports :: "(string \<times> sval) list \<Rightarrow> (string \<times> string list) list" where
  "negated_var_ports gate_inputs =
     fold (\<lambda>pv ports. case snd pv of
                         NegatedVariable var_id var_name \<Rightarrow> add_port var_id (fst pv) ports
                       | _ \<Rightarrow> ports)
          gate_inputs []"

definition classify :: "string \<Rightarrow> hazard_type" where
  "classify gate_type =
     (if gate_type = ''AND'' then Static0 else if gate_type = ''OR'' then Static1 else Dynamic)"

definition check_gate_for_hazard :: "LogicGate \<Rightarrow> (string \<times> sval) list \<Rightarrow> gate_hazard option" where
  "check_gate_for_hazard gate gate_inputs =
     (if length (g_inputs gate) < 2 then None
      else
        (case find (\<lambda>vp. has_key (negated_var_ports gate_inputs) (fst vp))
                   (special_var_ports gate_inputs) of
           None \<Rightarrow> None
         | Some vp \<Rightarrow>
             (case map_of (negated_var_ports gate_inputs) (fst vp) of
                None \<Rightarrow> None
              | Some nps \<Rightarrow>
                  Some \<lparr>gh_type = classify (g_type gate), gh_variable_id = fst vp,
                        gh_special_var_ports = snd vp, gh_negated_var_ports = nps\<rparr>)))"

subsection \<open>_compute_special_gate_output\<close>

text \<open>\<open>gate_inputs.get(port, 0)\<close>.\<close>

definition get_input :: "(string \<times> sval) list \<Rightarrow> string \<Rightarrow> sval" where
  "get_input gate_inputs port = (case map_of gate_inputs port of Some v \<Rightarrow> v | None \<Rightarrow> Const 0)"

definition special_vars :: "LogicGate \<Rightarrow> (string \<times> sval) list \<Rightarrow> (string \<times> sval) list" where
  "special_vars gate gate_inputs =
     fold (\<lambda>port vars. case get_input gate_inputs port of
                          SpecialVariable var_id var_name \<Rightarrow>
                            AList.update var_id (SpecialVariable var_id var_name) vars
                        | _ \<Rightarrow> vars)
          (g_inputs gate) []"

definition negated_vars :: "LogicGate \<Rightarrow> (string \<times> sval) list \<Rightarrow> (string \<times> sval) list" where
  "negated_vars gate gate_inputs =
     fold (\<lambda>port vars. case get_input gate_inputs port of
                          NegatedVariable var_id var_name \<Rightarrow>
                            AList.update var_id (NegatedVariable var_id var_name) vars
                        | _ \<Rightarrow> vars)
          (g_inputs gate) []"

text \<open>
  \<open>all_regular_inputs_are_1\<close> and \<open>all_regular_inputs_are_0\<close>: the ports of the gate that
  have an entry in \<open>gate_inputs\<close> whose value is a plain number all carry \<open>k\<close>.
\<close>

definition all_regular_inputs_are :: "int \<Rightarrow> LogicGate \<Rightarrow> (string \<times> sval) list \<Rightarrow> bool" where
  "all_regular_inputs_are k gate gate_inputs =
     list_all (\<lambda>port. case map_of gate_inputs port of
                        Some (Const v) \<Rightarrow> v = k
                      | _ \<Rightarrow> True)
              (g_inputs gate)"

definition compute_special_gate_output :: "LogicGate \<Rightarrow> (string \<times> sval) list \<Rightarrow> sval" where
  "compute_special_gate_output gate gate_inputs =
     (if g_type gate = ''NOT'' then
        (case g_inputs gate of
           [input_port] \<Rightarrow>
             (case get_input gate_inputs input_port of
                SpecialVariable var_id var_name \<Rightarrow> NegatedVariable var_id var_name
              | NegatedVariable var_id var_name \<Rightarrow> SpecialVariable var_id var_name
              | Const v \<Rightarrow> Const (1 - v))
         | _ \<Rightarrow> Const 0)
      else if g_type gate = ''AND'' then
        (if list_ex (\<lambda>port. get_input gate_inputs port = Const 0) (g_inputs gate) then Const 0
         else if list_ex (\<lambda>sv. has_key (negated_vars gate gate_inputs) (fst sv))
                         (special_vars gate gate_inputs) then Const 0
         else if all_regular_inputs_are 1 gate gate_inputs then
           (case (special_vars gate gate_inputs, negated_vars gate gate_inputs) of
              ([sv], []) \<Rightarrow> snd sv
            | ([], [nv]) \<Rightarrow> snd nv
            | ([], []) \<Rightarrow> Const 1
            | _ \<Rightarrow> Const 0)
         else Const 0)
      else if g_type gate = ''OR'' then
        (if list_ex (\<lambda>port. get_input gate_inputs port = Const 1) (g_inputs gate) then Const 1
         else if list_ex (\<lambda>sv. has_key (negated_vars gate gate_inputs) (fst sv))
                         (special_vars gate gate_inputs) then Const 1
         else if all_regular_inputs_are 0 gate gate_inputs then
           (case (special_vars gate gate_inputs, negated_vars gate gate_inputs) of
              ([sv], []) \<Rightarrow> snd sv
            | ([], [nv]) \<Rightarrow> snd nv
            | ([], []) \<Rightarrow> Const 0
            | _ \<Rightarrow> Const 1)
         else Const 1)
      else Const 0)"

subsection \<open>_reverse_topological_sort and _analyze_hazard_with_special_variable\<close>

text \<open>
  \<open>HazardDetector._topological_sort\<close> is \<open>Circuit._topological_sort\<close> line for line,
  reading \<open>self.circuit\<close> for \<open>self\<close>; both are \<^const>\<open>topological_sort\<close>.
\<close>

definition reverse_topological_sort :: "Circuit \<Rightarrow> error + string list" where
  "reverse_topological_sort c =
     (case topological_sort c of Inl e \<Rightarrow> Inl e | Inr forward_sort \<Rightarrow> Inr (rev forward_sort))"

text \<open>
  The loop over \<open>sorted_gates\<close> that fills \<open>hazard_gates\<close> and \<open>circuit_state\<close>. (The
  loop before it, which collects \<open>convergence_points\<close>, only feeds log messages.)
\<close>

fun simulate :: "Circuit \<Rightarrow> string list \<Rightarrow> (string \<times> sval) list \<Rightarrow> hazard_gate list \<Rightarrow> error + hazard_gate list" where
  "simulate c [] circuit_state hazard_gates = Inr hazard_gates"
| "simulate c (gate_id # rest) circuit_state hazard_gates =
     (case map_of (gates c) gate_id of
        None \<Rightarrow> Inl (KeyError gate_id)
      | Some gate \<Rightarrow>
          simulate c rest
            (AList.update gate_id
               (compute_special_gate_output gate (collect_gate_inputs c gate_id gate circuit_state))
               circuit_state)
            (case check_gate_for_hazard gate (collect_gate_inputs c gate_id gate circuit_state) of
               None \<Rightarrow> hazard_gates
             | Some h \<Rightarrow>
                 hazard_gates @
                 [\<lparr>hg_gate_id = gate_id, hg_gate_type = g_type gate, hg_inputs = g_inputs gate,
                   hg_hazard_type = gh_type h, hg_critical = True\<rparr>]))"

definition initial_state :: "string \<Rightarrow> string \<Rightarrow> (string \<times> int) list \<Rightarrow> (string \<times> sval) list" where
  "initial_state var_id variable_name other_inputs =
     AList.update var_id (SpecialVariable var_id variable_name)
       (map (\<lambda>kv. (fst kv, Const (snd kv))) other_inputs)"

definition analyze_hazard_with_special_variable :: "Circuit \<Rightarrow> string \<Rightarrow> string \<Rightarrow> (string \<times> int) list \<Rightarrow> error + hazard option" where
  "analyze_hazard_with_special_variable c var_id variable_name other_inputs =
     (case reverse_topological_sort c of
        Inl e \<Rightarrow> Inl e
      | Inr sorted_gates \<Rightarrow>
          (case simulate c sorted_gates (initial_state var_id variable_name other_inputs) [] of
             Inl e \<Rightarrow> Inl e
           | Inr [] \<Rightarrow> Inr None
           | Inr (hg # hgs) \<Rightarrow>
               Inr (Some \<lparr>hz_variable = variable_name, hz_other_inputs = Some other_inputs,
                          hz_hazard_type = hg_hazard_type hg, hz_hazard_gates = hg # hgs\<rparr>)))"

subsection \<open>_generate_all_input_combinations and _detect_hazards_by_expression\<close>

definition generate_all_input_combinations :: "string list \<Rightarrow> (string \<times> int) list list" where
  "generate_all_input_combinations input_ids =
     (if input_ids = [] then [[]]
      else map (\<lambda>i. fold (\<lambda>ji combination.
                             AList.update (snd ji) (int ((i div 2 ^ fst ji) mod 2)) combination)
                          (enumerate 0 input_ids) [])
               [0 ..< 2 ^ length input_ids])"

fun analyze_combinations :: "Circuit \<Rightarrow> string \<Rightarrow> string \<Rightarrow> (string \<times> int) list list \<Rightarrow> hazard list \<Rightarrow> error + hazard list" where
  "analyze_combinations c var_id variable [] found = Inr found"
| "analyze_combinations c var_id variable (input_combo # rest) found =
     (case analyze_hazard_with_special_variable c var_id variable input_combo of
        Inl e \<Rightarrow> Inl e
      | Inr None \<Rightarrow> analyze_combinations c var_id variable rest found
      | Inr (Some hazard_info) \<Rightarrow>
          analyze_combinations c var_id variable rest (found @ [hazard_info]))"

fun analyze_variables :: "Circuit \<Rightarrow> var_info list \<Rightarrow> hazard list \<Rightarrow> error + hazard list" where
  "analyze_variables c [] found = Inr found"
| "analyze_variables c (info # rest) found =
     (case analyze_combinations c (vi_id info) (vi_variable info)
             (generate_all_input_combinations
                (filter (\<lambda>inp. inp \<noteq> vi_id info) (map fst (inputs c))))
             found of
        Inl e \<Rightarrow> Inl e
      | Inr found' \<Rightarrow> analyze_variables c rest found')"

definition detect_hazards_by_expression :: "Circuit \<Rightarrow> error + hazard list" where
  "detect_hazards_by_expression c = analyze_variables c (find_variables_with_negation c) []"

subsection \<open>_check_direct_hazards\<close>

definition direct_hazard :: "Circuit \<Rightarrow> var_info \<Rightarrow> string \<Rightarrow> hazard list" where
  "direct_hazard c info gate_id =
     (case map_of (gates c) gate_id of
        None \<Rightarrow> []
      | Some gate \<Rightarrow>
          [\<lparr>hz_variable = vi_variable info, hz_other_inputs = None,
            hz_hazard_type = classify (g_type gate),
            hz_hazard_gates =
              [\<lparr>hg_gate_id = gate_id, hg_gate_type = g_type gate, hg_inputs = g_inputs gate,
                hg_hazard_type = classify (g_type gate), hg_critical = True\<rparr>]\<rparr>])"

definition check_direct_hazards :: "Circuit \<Rightarrow> hazard list" where
  "check_direct_hazards c =
     concat (map (\<lambda>info. if vi_has_convergence info \<and> vi_convergence_points info \<noteq> []
                          then concat (map (direct_hazard c info) (vi_convergence_points info))
                          else [])
                 (find_variables_with_negation c))"

subsection \<open>detect_hazards\<close>

text \<open>
  The body of \<open>detect_hazards\<close> over the outcomes of the calls it makes: the race sweep in
  the first \<open>try\<close>, the expression method and, when that one returns an empty list, the
  direct method in the second \<open>try\<close>. Each \<open>except Exception\<close> logs and puts the empty
  list in place of the findings.
\<close>

definition run_detection :: "error + race_condition list \<Rightarrow> error + hazard list \<Rightarrow> error + hazard list \<Rightarrow> detection_results" where
  "run_detection race_sweep by_expression direct =
     \<lparr>race_conditions = (case race_sweep of Inl e \<Rightarrow> [] | Inr found \<Rightarrow> found),
      hazards =
        (case by_expression of
           Inl e \<Rightarrow> []
         | Inr [] \<Rightarrow> (case direct of Inl e \<Rightarrow> [] | Inr found \<Rightarrow> found)
         | Inr (h # hs) \<Rightarrow> h # hs)\<rparr>"

definition detect_hazards :: "Circuit \<Rightarrow> detection_results" where
  "detect_hazards c =
     run_detection (Inr (detect_race_conditions c)) (detect_hazards_by_expression c)
       (Inr (check_direct_hazards c))"

section \<open>Vocabulary of the properties\<close>

text \<open>
  The gate-to-gate connections, as pairs: the connections that \<open>_topological_sort\<close>
  looks at (both end points are gate ids), in the order of the connection list.
\<close>

definition gate_pair :: "Circuit \<Rightarrow> connection \<Rightarrow> bool" where
  "gate_pair c conn = (has_key (gates c) (conn_from conn) \<and> has_key (gates c) (conn_to conn))"

definition edges_of :: "Circuit \<Rightarrow> connection list \<Rightarrow> (string \<times> string) list" where
  "edges_of c conns = map (\<lambda>conn. (conn_from conn, conn_to conn)) (filter (gate_pair c) conns)"

definition gate_edges :: "Circuit \<Rightarrow> (string \<times> string) list" where
  "gate_edges c = edges_of c (connections c)"

text \<open>\<open>u\<close> occurs in \<open>order\<close> before the first occurrence of \<open>v\<close>.\<close>

definition appears_before :: "'a list \<Rightarrow> 'a \<Rightarrow> 'a \<Rightarrow> bool" where
  "appears_before order u v = (u \<in> set (takeWhile (\<lambda>x. x \<noteq> v) order) \<and> v \<in> set order)"

text \<open>
  The successor list and the number of incoming edges that do not start in \<open>S\<close>; the
  invariant of the \<open>while\<close> loop of Kahn's algorithm, and what holds when it ends.
\<close>

definition successors :: "(string \<times> string) list \<Rightarrow> string \<Rightarrow> string list" where
  "successors E u = map snd (filter (\<lambda>e. fst e = u) E)"

definition indeg_from :: "(string \<times> string) list \<Rightarrow> string set \<Rightarrow> string \<Rightarrow> int" where
  "indeg_from E S v = int (length (filter (\<lambda>e. snd e = v \<and> fst e \<notin> S) E))"

definition kahn_inv :: "Circuit \<Rightarrow> graph \<Rightarrow> string list \<Rightarrow> string list \<Rightarrow> in_degree \<Rightarrow> bool" where
  "kahn_inv c graph queue sorted_gates in_degree \<longleftrightarrow>
     map fst in_degree = map fst (gates c)
     \<and> (\<forall>u \<in> fst ` set (gates c). map_of graph u = Some (successors (gate_edges c) u))
     \<and> distinct (sorted_gates @ queue)
     \<and> set (sorted_gates @ queue) \<subseteq> fst ` set (gates c)
     \<and> (\<forall>v \<in> fst ` set (gates c).
           map_of in_degree v = Some (indeg_from (gate_edges c) (set sorted_gates) v))
     \<and> (\<forall>v \<in> fst ` set (gates c).
           v \<in> set (sorted_gates @ queue) \<longleftrightarrow> indeg_from (gate_edges c) (set sorted_gates) v = 0)
     \<and> (\<forall>e \<in> set (gate_edges c).
           snd e \<in> set sorted_gates \<longrightarrow> appears_before sorted_gates (fst e) (snd e))"

definition kahn_final :: "Circuit \<Rightarrow> string list \<Rightarrow> bool" where
  "kahn_final c final \<longleftrightarrow>
     distinct final \<and> set final \<subseteq> fst ` set (gates c)
     \<and> (\<forall>v \<in> fst ` set (gates c).
           v \<in> set final \<longleftrightarrow> indeg_from (gate_edges c) (set final) v = 0)
     \<and> (\<forall>e \<in> set (gate_edges c).
           snd e \<in> set final \<longrightarrow> appears_before final (fst e) (snd e))"

text \<open>
  For the symbolic pass: a value that is a negated variable, a gate none of whose
  sources carries one, a processing order in which no gate feeds a later one, and the
  input dictionaries that \<open>_collect_gate_inputs\<close> returns during the pass.
\<close>

definition is_negated :: "sval option \<Rightarrow> bool" where
  "is_negated v = (case v of Some (NegatedVariable var_id var_name) \<Rightarrow> True | _ \<Rightarrow> False)"

definition clean_sources :: "Circuit \<Rightarrow> (string \<times> sval) list \<Rightarrow> string \<Rightarrow> bool" where
  "clean_sources c circuit_state gate_id \<longleftrightarrow>
     (\<forall>conn \<in> set (connections c).
        conn_to conn = gate_id \<longrightarrow> \<not> is_negated (map_of circuit_state (conn_from conn)))"

fun bottom_up :: "Circuit \<Rightarrow> string list \<Rightarrow> bool" where
  "bottom_up c [] = True"
| "bottom_up c (g # rest) =
     ((\<forall>conn \<in> set (connections c). conn_from conn = g \<longrightarrow> conn_to conn \<notin> set rest)
      \<and> bottom_up c rest)"

fun collected_inputs :: "Circuit \<Rightarrow> string list \<Rightarrow> (string \<times> sval) list \<Rightarrow> (string \<times> (string \<times> sval) list) list" where
  "collected_inputs c [] circuit_state = []"
| "collected_inputs c (gate_id # rest) circuit_state =
     (case map_of (gates c) gate_id of
        None \<Rightarrow> []
      | Some gate \<Rightarrow>
          (gate_id, collect_gate_inputs c gate_id gate circuit_state) #
          collected_inputs c rest
            (AList.update gate_id
               (compute_special_gate_output gate (collect_gate_inputs c gate_id gate circuit_state))
               circuit_state))"

text \<open>
  The values present among the inputs of a gate, and the symbolic tokens among them.  A token
  is identified by its polarity and its variable id, the key under which the dictionaries
  \<open>special_vars\<close> and \<open>negated_vars\<close> of the code hold it.
\<close>

definition present :: "(string \<times> sval) list \<Rightarrow> sval set" where
  "present gate_inputs = snd ` set gate_inputs"

definition token_key :: "sval \<Rightarrow> (bool \<times> string) option" where
  "token_key v =
     (case v of
        Const k \<Rightarrow> None
      | SpecialVariable var_id var_name \<Rightarrow> Some (True, var_id)
      | NegatedVariable var_id var_name \<Rightarrow> Some (False, var_id))"

definition symbolic_tokens :: "(string \<times> sval) list \<Rightarrow> sval set" where
  "symbolic_tokens gate_inputs = {v \<in> present gate_inputs. token_key v \<noteq> None}"

definition complementary :: "(string \<times> sval) list \<Rightarrow> bool" where
  "complementary gate_inputs \<longleftrightarrow>
     (\<exists>var_id n1 n2. SpecialVariable var_id n1 \<in> present gate_inputs
                     \<and> NegatedVariable var_id n2 \<in> present gate_inputs)"

definition constants_all :: "int \<Rightarrow> (string \<times> sval) list \<Rightarrow> bool" where
  "constants_all k gate_inputs \<longleftrightarrow> (\<forall>v. Const v \<in> present gate_inputs \<longrightarrow> v = k)"

text \<open>The dictionary entry that a symbolic value contributes, if any.\<close>

definition select_special :: "sval \<Rightarrow> (string \<times> sval) option" where
  "select_special v =
     (case v of SpecialVariable var_id var_name \<Rightarrow> Some (var_id, SpecialVariable var_id var_name)
      | _ \<Rightarrow> None)"

definition select_negated :: "sval \<Rightarrow> (string \<times> sval) option" where
  "select_negated v =
     (case v of NegatedVariable var_id var_name \<Rightarrow> Some (var_id, NegatedVariable var_id var_name)
      | _ \<Rightarrow> None)"

text \<open>
  The expression as written.  Its words are the maximal runs of characters other than white
  space, parentheses and the operator symbols; a word is a keyword when it reads \<open>AND\<close>,
  \<open>OR\<close> or \<open>NOT\<close> in any case; the alphabetic operands are the alphabetic words that are
  not keywords.  \<open>occurs_in old s\<close> is Python's \<open>old in s\<close>.  The models of \<open>str.upper\<close>,
  \<open>str.lower\<close>, \<open>str.isalpha\<close> and \<open>str.isspace\<close> are those of Python on ASCII strings.
\<close>

definition ascii :: "string \<Rightarrow> bool" where
  "ascii s = list_all (\<lambda>ch. of_char ch < (128 :: nat)) s"

definition separator :: "char \<Rightarrow> bool" where
  "separator ch = (ch \<in> set ''&|!()'' \<or> isspace ch)"

fun split_words :: "string \<Rightarrow> string \<Rightarrow> string list" where
  "split_words [] current = (if current = [] then [] else [current])"
| "split_words (ch # rest) current =
     (if separator ch then (if current = [] then [] else [current]) @ split_words rest []
      else split_words rest (current @ [ch]))"

definition words_of :: "string \<Rightarrow> string list" where
  "words_of expression = split_words expression []"

fun occurs_in :: "string \<Rightarrow> string \<Rightarrow> bool" where
  "occurs_in old [] = (old = [])"
| "occurs_in old (ch # s) = (take (length old) (ch # s) = old \<or> occurs_in old s)"

definition keyword :: "string \<Rightarrow> bool" where
  "keyword w = (upper w \<in> set [''AND'', ''OR'', ''NOT''])"

definition keyword_free :: "string \<Rightarrow> bool" where
  "keyword_free w =
     (\<not> occurs_in ''AND'' (upper w) \<and> \<not> occurs_in ''OR'' (upper w)
      \<and> \<not> occurs_in ''NOT'' (upper w))"

definition operands :: "string \<Rightarrow> string list" where
  "operands expression = filter (\<lambda>w. isalpha w \<and> \<not> keyword w) (words_of expression)"

text \<open>
  An expression laid out as its words and the separating characters between them, the
  tokens that a word and a separator give, and the two ends of \<open>_tokenize\<close>: the keyword
  replacement before the loop and the flush of the last token after it.
\<close>

fun join :: "string \<Rightarrow> (char \<times> string) list \<Rightarrow> string" where
  "join w [] = w"
| "join w (sv # rest) = w @ fst sv # join (snd sv) rest"

definition word_token :: "string \<Rightarrow> string list" where
  "word_token w = (if w = [] then [] else [w])"

definition separator_token :: "char \<Rightarrow> string list" where
  "separator_token ch = (if ch \<in> set ''&|!()'' then [[ch]] else [])"

definition rewrite_keywords :: "string \<Rightarrow> string" where
  "rewrite_keywords s = replace ''NOT'' ''!'' (replace ''OR'' ''|'' (replace ''AND'' ''&'' s))"

definition finish :: "string list \<times> string \<Rightarrow> string list" where
  "finish run = (case run of (tokens, current) \<Rightarrow>
                   if current = [] then tokens else tokens @ [strip current])"

definition plain :: "string \<Rightarrow> bool" where
  "plain w = (\<forall>ch \<in> set w. \<not> separator ch)"

section \<open>Example circuits\<close>

text \<open>What \<open>parse("A OR B AND C")\<close> builds: \<open>g1 = b AND c\<close>, \<open>g2 = a OR g1\<close>.\<close>

definition or_and_circuit :: Circuit where
  "or_and_circuit =
     \<lparr>name = ''parsed_circuit'',
      gates =
        [(''g1'', \<lparr>g_id = ''g1'', g_type = ''AND'', g_delay = 2.0,
                   g_inputs = [''b'', ''c''], g_output = ''g1''\<rparr>),
         (''g2'', \<lparr>g_id = ''g2'', g_type = ''OR'', g_delay = 2.0,
                   g_inputs = [''a'', ''g1''], g_output = ''g2''\<rparr>)],
      inputs =
        [(''a'', \<lparr>in_name = ''A'', initial_value = 0\<rparr>),
         (''b'', \<lparr>in_name = ''B'', initial_value = 0\<rparr>),
         (''c'', \<lparr>in_name = ''C'', initial_value = 0\<rparr>)],
      outputs = [(''out1'', \<lparr>out_name = ''Y'', source = ''g2''\<rparr>)],
      connections =
        [\<lparr>conn_from = ''b'', conn_to = ''g1'', conn_delay = 0.1\<rparr>,
         \<lparr>conn_from = ''c'', conn_to = ''g1'', conn_delay = 0.1\<rparr>,
         \<lparr>conn_from = ''a'', conn_to = ''g2'', conn_delay = 0.1\<rparr>,
         \<lparr>conn_from = ''g1'', conn_to = ''g2'', conn_delay = 0.1\<rparr>]\<rparr>"

text \<open>
  Input \<open>a\<close> feeds the AND gate \<open>g2\<close> directly and through the NOT gate \<open>g1\<close>; the
  output is taken from \<open>g2\<close>. Gate and wire delays are parameters.
\<close>

definition reconvergent_circuit :: "real \<Rightarrow> real \<Rightarrow> real \<Rightarrow> real \<Rightarrow> real \<Rightarrow> Circuit" where
  "reconvergent_circuit d_not d_and w1 w2 w3 =
     \<lparr>name = ''reconvergent'',
      gates =
        [(''g1'', \<lparr>g_id = ''g1'', g_type = ''NOT'', g_delay = d_not,
                   g_inputs = [''a''], g_output = ''g1''\<rparr>),
         (''g2'', \<lparr>g_id = ''g2'', g_type = ''AND'', g_delay = d_and,
                   g_inputs = [''a'', ''g1''], g_output = ''g2''\<rparr>)],
      inputs = [(''a'', \<lparr>in_name = ''A'', initial_value = 0\<rparr>)],
      outputs = [(''out1'', \<lparr>out_name = ''Y'', source = ''g2''\<rparr>)],
      connections =
        [\<lparr>conn_from = ''a'', conn_to = ''g1'', conn_delay = w1\<rparr>,
         \<lparr>conn_from = ''a'', conn_to = ''g2'', conn_delay = w2\<rparr>,
         \<lparr>conn_from = ''g1'', conn_to = ''g2'', conn_delay = w3\<rparr>]\<rparr>"

text \<open>
  The circuit of tests/test_detector.py: one AND gate on the two primary inputs, with
  the two wire delays as parameters.
\<close>

definition race_circuit :: "real \<Rightarrow> real \<Rightarrow> Circuit" where
  "race_circuit d1 d2 =
     \<lparr>name = ''test_circuit'',
      gates =
        [(''g1'', \<lparr>g_id = ''g1'', g_type = ''AND'', g_delay = 2.0,
                   g_inputs = [''in1'', ''in2''], g_output = ''g1''\<rparr>)],
      inputs =
        [(''in1'', \<lparr>in_name = ''A'', initial_value = 0\<rparr>),
         (''in2'', \<lparr>in_name = ''B'', initial_value = 0\<rparr>)],
      outputs = [(''out1'', \<lparr>out_name = ''Y'', source = ''g1''\<rparr>)],
      connections =
        [\<lparr>conn_from = ''in1'', conn_to = ''g1'', conn_delay = d1\<rparr>,
         \<lparr>conn_from = ''in2'', conn_to = ''g1'', conn_delay = d2\<rparr>]\<rparr>"

text \<open>
  A circuit with a feedback loop between the OR gates \<open>g2\<close> and \<open>g3\<close>, a NOT gate on
  input \<open>a\<close>, and an AND gate \<open>g4\<close> on the two primary inputs.
\<close>

definition feedback_circuit :: Circuit where
  "feedback_circuit =
     \<lparr>name = ''feedback'',
      gates =
        [(''g1'', \<lparr>g_id = ''g1'', g_type = ''NOT'', g_delay = 1.0,
                   g_inputs = [''a''], g_output = ''g1''\<rparr>),
         (''g2'', \<lparr>g_id = ''g2'', g_type = ''OR'', g_delay = 2.0,
                   g_inputs = [''a'', ''g3''], g_output = ''g2''\<rparr>),
         (''g3'', \<lparr>g_id = ''g3'', g_type = ''OR'', g_delay = 2.0,
                   g_inputs = [''b'', ''g2''], g_output = ''g3''\<rparr>),
         (''g4'', \<lparr>g_id = ''g4'', g_type = ''AND'', g_delay = 2.0,
                   g_inputs = [''a'', ''b''], g_output = ''g4''\<rparr>)],
      inputs =
        [(''a'', \<lparr>in_name = ''A'', initial_value = 0\<rparr>),
         (''b'', \<lparr>in_name = ''B'', initial_value = 0\<rparr>)],
      outputs = [(''out1'', \<lparr>out_name = ''Y'', source = ''g3''\<rparr>)],
      connections =
        [\<lparr>conn_from = ''a'', conn_to = ''g1'', conn_delay = 0.1\<rparr>,
         \<lparr>conn_from = ''a'', conn_to = ''g2'', conn_delay = 0.1\<rparr>,
         \<lparr>conn_from = ''g3'', conn_to = ''g2'', conn_delay = 0.1\<rparr>,
         \<lparr>conn_from = ''b'', conn_to = ''g3'', conn_delay = 0.1\<rparr>,
         \<lparr>conn_from = ''g2'', conn_to = ''g3'', conn_delay = 0.1\<rparr>,
         \<lparr>conn_from = ''a'', conn_to = ''g4'', conn_delay = 0.1\<rparr>,
         \<lparr>conn_from = ''b'', conn_to = ''g4'', conn_delay = 0.1\<rparr>]\<rparr>"

text \<open>
  The reconvergent circuit next to a feedback loop: \<open>a\<close> reaches the AND gate \<open>g2\<close> directly
  and through the NOT gate \<open>g1\<close>, the OR gates \<open>g3\<close> and \<open>g4\<close> feed each other, and the AND
  gate \<open>g5\<close> joins the two primary inputs.
\<close>

definition feedback_reconvergent_circuit :: Circuit where
  "feedback_reconvergent_circuit =
     \<lparr>name = ''feedback_reconvergent'',
      gates =
        [(''g1'', \<lparr>g_id = ''g1'', g_type = ''NOT'', g_delay = 1.0,
                   g_inputs = [''a''], g_output = ''g1''\<rparr>),
         (''g2'', \<lparr>g_id = ''g2'', g_type = ''AND'', g_delay = 2.0,
                   g_inputs = [''a'', ''g1''], g_output = ''g2''\<rparr>),
         (''g3'', \<lparr>g_id = ''g3'', g_type = ''OR'', g_delay = 2.0,
                   g_inputs = [''b'', ''g4''], g_output = ''g3''\<rparr>),
         (''g4'', \<lparr>g_id = ''g4'', g_type = ''OR'', g_delay = 2.0,
                   g_inputs = [''b'', ''g3''], g_output = ''g4''\<rparr>),
         (''g5'', \<lparr>g_id = ''g5'', g_type = ''AND'', g_delay = 2.0,
                   g_inputs = [''a'', ''b''], g_output = ''g5''\<rparr>)],
      inputs =
        [(''a'', \<lparr>in_name = ''A'', initial_value = 0\<rparr>),
         (''b'', \<lparr>in_name = ''B'', initial_value = 0\<rparr>)],
      outputs = [(''out1'', \<lparr>out_name = ''Y'', source = ''g2''\<rparr>)],
      connections =
        [\<lparr>conn_from = ''a'', conn_to = ''g1'', conn_delay = 0.1\<rparr>,
         \<lparr>conn_from = ''a'', conn_to = ''g2'', conn_delay = 0.1\<rparr>,
         \<lparr>conn_from = ''g1'', conn_to = ''g2'', conn_delay = 0.1\<rparr>,
         \<lparr>conn_from = ''b'', conn_to = ''g3'', conn_delay = 0.1\<rparr>,
         \<lparr>conn_from = ''g4'', conn_to = ''g3'', conn_delay = 0.1\<rparr>,
         \<lparr>conn_from = ''b'', conn_to = ''g4'', conn_delay = 0.1\<rparr>,
         \<lparr>conn_from = ''g3'', conn_to = ''g4'', conn_delay = 0.1\<rparr>,
         \<lparr>conn_from = ''a'', conn_to = ''g5'', conn_delay = 0.1\<rparr>,
         \<lparr>conn_from = ''b'', conn_to = ''g5'', conn_delay = 0.1\<rparr>]\<rparr>"

text \<open>What \<open>parse("B AND A")\<close> builds: the inputs are registered as \<open>a\<close>, then \<open>b\<close>.\<close>

definition b_and_a_circuit :: Circuit where
  "b_and_a_circuit =
     \<lparr>name = ''parsed_circuit'',
      gates =
        [(''g1'', \<lparr>g_id = ''g1'', g_type = ''AND'', g_delay = 2.0,
                   g_inputs = [''b'', ''a''], g_output = ''g1''\<rparr>)],
      inputs =
        [(''a'', \<lparr>in_name = ''A'', initial_value = 0\<rparr>),
         (''b'', \<lparr>in_name = ''B'', initial_value = 0\<rparr>)],
      outputs = [(''out1'', \<lparr>out_name = ''Y'', source = ''g1''\<rparr>)],
      connections =
        [\<lparr>conn_from = ''b'', conn_to = ''g1'', conn_delay = 0.1\<rparr>,
         \<lparr>conn_from = ''a'', conn_to = ''g1'', conn_delay = 0.1\<rparr>]\<rparr>"

text \<open>An AND gate without inputs (constant 1) feeding a NOT gate; no primary inputs.\<close>

definition constant_not_circuit :: Circuit where
  "constant_not_circuit =
     \<lparr>name = ''constant'',
      gates =
        [(''g1'', \<lparr>g_id = ''g1'', g_type = ''AND'', g_delay = 2.0,
                   g_inputs = [], g_output = ''g1''\<rparr>),
         (''g2'', \<lparr>g_id = ''g2'', g_type = ''NOT'', g_delay = 1.0,
                   g_inputs = [''g1''], g_output = ''g2''\<rparr>)],
      inputs = [],
      outputs = [(''out1'', \<lparr>out_name = ''Y'', source = ''g2''\<rparr>)],
      connections = [\<lparr>conn_from = ''g1'', conn_to = ''g2'', conn_delay = 0.1\<rparr>]\<rparr>"

section \<open>Verified properties\<close>

subsection \<open>Operator precedence of the parser\<close>

lemma parse_or_and:
  "parse new_parser ''A OR B AND C'' = Inr (\<lparr>gate_id_counter = 2\<rparr>, or_and_circuit)"
  by code_simp

text \<open>
  Claim C8. \<open>parse("A OR B AND C")\<close> on a fresh parser builds an AND gate over \<open>b\<close> and
  \<open>c\<close> and an OR gate over \<open>a\<close> and that AND gate, that is \<open>A OR (B AND C)\<close>; evaluating
  the circuit with \<open>A=0, B=1, C=0\<close> gives the primary output \<open>out1\<close> the value 0, and
  with \<open>A=1, B=0, C=0\<close> the value 1.
\<close>

theorem parse_or_and_precedence:
  "parse new_parser ''A OR B AND C'' = Inr (\<lparr>gate_id_counter = 2\<rparr>, or_and_circuit)
   \<and> compute_circuit or_and_circuit (Some [(''a'', 0), (''b'', 1), (''c'', 0)])
       = Inr [(''a'', 0), (''b'', 1), (''c'', 0), (''g1'', 0), (''g2'', 0), (''out1'', 0)]
   \<and> compute_circuit or_and_circuit (Some [(''a'', 1), (''b'', 0), (''c'', 0)])
       = Inr [(''a'', 1), (''b'', 0), (''c'', 0), (''g1'', 0), (''g2'', 1), (''out1'', 1)]"
proof (intro conjI)
  show "parse new_parser ''A OR B AND C'' = Inr (\<lparr>gate_id_counter = 2\<rparr>, or_and_circuit)"
    by (rule parse_or_and)
  show "compute_circuit or_and_circuit (Some [(''a'', 0), (''b'', 1), (''c'', 0)])
       = Inr [(''a'', 0), (''b'', 1), (''c'', 0), (''g1'', 0), (''g2'', 0), (''out1'', 0)]"
    by code_simp
  show "compute_circuit or_and_circuit (Some [(''a'', 1), (''b'', 0), (''c'', 0)])
       = Inr [(''a'', 1), (''b'', 0), (''c'', 0), (''g1'', 0), (''g2'', 1), (''out1'', 1)]"
    by code_simp
qed

subsection \<open>Malformed expressions\<close>

lemmas parser_defs =
  parse_def tokenize_def upper_def upper_char_def lower_def lower_char_def
  lowercase_letters_def uppercase_letters_def isspace_def strip_def
  build_gates_def precedence_def create_gate_def generate_gate_id_def

text \<open>
  Claim C6, evaluated on the code. The empty expression is refused with
  \<open>CircuitParseError\<close>, but two consecutive binary operators and a dangling operator
  make \<open>_create_gate\<close> pop from an empty operand stack: \<open>parse\<close> ends with
  \<open>IndexError\<close>, whatever the state of the parser.
\<close>

theorem parse_malformed_raises_IndexError:
  "parse p [] = Inl CircuitParseError
   \<and> parse p ''A AND AND B'' = Inl IndexError
   \<and> parse p ''A AND'' = Inl IndexError"
  by (simp add: parser_defs)

subsection \<open>Race detection on the two-input AND gate\<close>

lemma race_circuit_fields:
  "gates (race_circuit d1 d2) =
     [(''g1'', \<lparr>g_id = ''g1'', g_type = ''AND'', g_delay = 2.0,
                g_inputs = [''in1'', ''in2''], g_output = ''g1''\<rparr>)]"
  "inputs (race_circuit d1 d2) =
     [(''in1'', \<lparr>in_name = ''A'', initial_value = 0\<rparr>),
      (''in2'', \<lparr>in_name = ''B'', initial_value = 0\<rparr>)]"
  "outputs (race_circuit d1 d2) = [(''out1'', \<lparr>out_name = ''Y'', source = ''g1''\<rparr>)]"
  "connections (race_circuit d1 d2) =
     [\<lparr>conn_from = ''in1'', conn_to = ''g1'', conn_delay = d1\<rparr>,
      \<lparr>conn_from = ''in2'', conn_to = ''g1'', conn_delay = d2\<rparr>]"
  by (simp_all add: race_circuit_def)

lemma race_circuit_paths:
  "find_all_paths_to_gate (race_circuit d1 d2) ''in1'' = [[''in1'']]"
  "find_all_paths_to_gate (race_circuit d1 d2) ''in2'' = [[''in2'']]"
  by (simp_all add: find_all_paths_to_gate_def dfs.simps race_circuit_fields has_key_def)

lemma race_circuit_input_delays:
  "g_inputs gate = [''in1'', ''in2''] \<Longrightarrow>
   calculate_input_delays (race_circuit d1 d2) gate = [(''in1'', 0), (''in2'', 0)]"
  by (simp add: calculate_input_delays_def race_circuit_paths calculate_path_delay_def
      race_circuit_fields)

text \<open>
  Claim C2 as stated fails on its second half: with wire delays 0.1 and 0.7 the pair is
  flagged as well.
\<close>

theorem race_flagged_at_wire_delays_01_07:
  "detect_race_conditions (race_circuit 0.1 0.7) =
     [\<lparr>rc_gate_id = ''g1'', rc_gate_type = ''AND'', rc_input1 = ''in1'', rc_input2 = ''in2'',
       rc_delay1 = 0, rc_delay2 = 0\<rparr>]"
  by (simp add: detect_race_conditions_def race_circuit_input_delays race_circuit_fields)

text \<open>
  Claim C2, amended. For the circuit of one 2-input AND gate whose ports are two distinct
  primary inputs, the delay computed for a port is the largest delay of the paths that
  end at the port's own node; the wire from that node into the gate is not part of
  them. Both ports are primary inputs, so both delays are 0 and the pair is flagged
  whatever the two wire delays are: for 0.1 and 0.5, and for 0.1 and 0.7 too.
\<close>

theorem race_flagged_for_all_wire_delays:
  "calculate_input_delays (race_circuit d1 d2)
     \<lparr>g_id = ''g1'', g_type = ''AND'', g_delay = 2,
      g_inputs = [''in1'', ''in2''], g_output = ''g1''\<rparr>
     = [(''in1'', 0), (''in2'', 0)]
   \<and> detect_race_conditions (race_circuit d1 d2) =
       [\<lparr>rc_gate_id = ''g1'', rc_gate_type = ''AND'', rc_input1 = ''in1'', rc_input2 = ''in2'',
         rc_delay1 = 0, rc_delay2 = 0\<rparr>]
   \<and> race_conditions (detect_hazards (race_circuit d1 d2)) =
       [\<lparr>rc_gate_id = ''g1'', rc_gate_type = ''AND'', rc_input1 = ''in1'', rc_input2 = ''in2'',
         rc_delay1 = 0, rc_delay2 = 0\<rparr>]"
  by (simp add: detect_hazards_def run_detection_def detect_race_conditions_def
      race_circuit_input_delays race_circuit_fields)

subsection \<open>Hazards of the reconvergent circuit, and circuits without negation\<close>

lemma reconvergent_fields:
  "gates (reconvergent_circuit d_not d_and w1 w2 w3) =
     [(''g1'', \<lparr>g_id = ''g1'', g_type = ''NOT'', g_delay = d_not,
                g_inputs = [''a''], g_output = ''g1''\<rparr>),
      (''g2'', \<lparr>g_id = ''g2'', g_type = ''AND'', g_delay = d_and,
                g_inputs = [''a'', ''g1''], g_output = ''g2''\<rparr>)]"
  "inputs (reconvergent_circuit d_not d_and w1 w2 w3) =
     [(''a'', \<lparr>in_name = ''A'', initial_value = 0\<rparr>)]"
  "outputs (reconvergent_circuit d_not d_and w1 w2 w3) =
     [(''out1'', \<lparr>out_name = ''Y'', source = ''g2''\<rparr>)]"
  "connections (reconvergent_circuit d_not d_and w1 w2 w3) =
     [\<lparr>conn_from = ''a'', conn_to = ''g1'', conn_delay = w1\<rparr>,
      \<lparr>conn_from = ''a'', conn_to = ''g2'', conn_delay = w2\<rparr>,
      \<lparr>conn_from = ''g1'', conn_to = ''g2'', conn_delay = w3\<rparr>]"
  by (simp_all add: reconvergent_circuit_def)

lemma reconvergent_paths:
  "find_all_paths_to_gate (reconvergent_circuit d_not d_and w1 w2 w3) ''g2''
   = [[''a'', ''g2''], [''a'', ''g1'', ''g2'']]"
  by (simp add: find_all_paths_to_gate_def dfs.simps reconvergent_fields has_key_def)

lemma reconvergent_direct_not_gates:
  "direct_not_gates (reconvergent_circuit d_not d_and w1 w2 w3) ''a'' = [''g1'']"
  by (simp add: direct_not_gates_def is_not_gate_def reconvergent_fields)

lemma reconvergent_variable_info:
  "variable_info (reconvergent_circuit d_not d_and w1 w2 w3) ''a''
     \<lparr>in_name = ''A'', initial_value = 0\<rparr>
   = \<lparr>vi_variable = ''A'', vi_id = ''a'',
      vi_negation_paths = [[''a'', ''g1'', ''g2'']],
      vi_original_paths = [[''a'', ''g2'']], vi_direct_not_gates = [''g1''],
      vi_has_convergence = True, vi_convergence_points = [''g2'']\<rparr>"
proof -
  have var_paths:
    "find_variable_paths (reconvergent_circuit d_not d_and w1 w2 w3) ''a''
     = [[''a'', ''g2''], [''a'', ''g1'', ''g2'']]"
    by (simp add: find_variable_paths_def reconvergent_paths reconvergent_fields)
  have negation:
    "filter (\<lambda>path. case next_after ''a'' path of
                      None \<Rightarrow> False | Some nxt \<Rightarrow> nxt \<in> set [''g1''])
        [[''a'', ''g2''], [''a'', ''g1'', ''g2'']] = [[''a'', ''g1'', ''g2'']]"
    by simp
  have original:
    "filter (\<lambda>path. case next_after ''a'' path of
                      None \<Rightarrow> False | Some nxt \<Rightarrow> nxt \<notin> set [''g1''])
        [[''a'', ''g2''], [''a'', ''g1'', ''g2'']] = [[''a'', ''g2'']]"
    by simp
  show ?thesis
    unfolding variable_info_def reconvergent_direct_not_gates var_paths Let_def negation original
    by simp
qed

lemma reconvergent_variables:
  "find_variables_with_negation (reconvergent_circuit d_not d_and w1 w2 w3)
   = [\<lparr>vi_variable = ''A'', vi_id = ''a'',
       vi_negation_paths = [[''a'', ''g1'', ''g2'']],
       vi_original_paths = [[''a'', ''g2'']], vi_direct_not_gates = [''g1''],
       vi_has_convergence = True, vi_convergence_points = [''g2'']\<rparr>]"
  by (simp add: find_variables_with_negation_def reconvergent_fields
      reconvergent_direct_not_gates reconvergent_variable_info)

lemma reconvergent_sort:
  "topological_sort (reconvergent_circuit d_not d_and w1 w2 w3) = Inr [''g1'', ''g2'']"
  by (simp add: topological_sort_def reconvergent_fields has_key_def)

lemma reconvergent_by_expression:
  "detect_hazards_by_expression (reconvergent_circuit d_not d_and w1 w2 w3) = Inr []"
  apply (simp add: detect_hazards_by_expression_def reconvergent_variables
      generate_all_input_combinations_def analyze_hazard_with_special_variable_def
      reverse_topological_sort_def reconvergent_sort initial_state_def)
  apply (simp add: reconvergent_fields collect_gate_inputs_def input_port_to_source_def
      has_key_def check_gate_for_hazard_def special_var_ports_def negated_var_ports_def
      add_port_def)
  done

lemma reconvergent_direct:
  "check_direct_hazards (reconvergent_circuit d_not d_and w1 w2 w3)
   = [\<lparr>hz_variable = ''A'', hz_other_inputs = None, hz_hazard_type = Static0,
       hz_hazard_gates =
         [\<lparr>hg_gate_id = ''g2'', hg_gate_type = ''AND'', hg_inputs = [''a'', ''g1''],
           hg_hazard_type = Static0, hg_critical = True\<rparr>]\<rparr>]"
  by (simp add: check_direct_hazards_def reconvergent_variables direct_hazard_def
      reconvergent_fields classify_def)

lemma no_negation_no_hazards:
  assumes "list_all (\<lambda>kd. direct_not_gates c (fst kd) = []) (inputs c)"
  shows "hazards (detect_hazards c) = []"
proof -
  from assms have "find_variables_with_negation c = []"
    by (simp add: find_variables_with_negation_def list_all_iff)
  then show ?thesis
    by (simp add: detect_hazards_def run_detection_def detect_hazards_by_expression_def
        check_direct_hazards_def)
qed

text \<open>
  Claim C1. In the circuit where primary input \<open>A\<close> feeds the 2-input AND gate \<open>g2\<close>
  directly and through the NOT gate \<open>g1\<close>, and \<open>g2\<close> drives the primary output,
  \<open>detect_hazards\<close> reports exactly one hazard: of kind static-0, with \<open>g2\<close> as its only
  hazard gate (for all gate and wire delays). And in every circuit where no primary
  input is connected directly to a NOT gate (so in particular where no NOT gate can be
  reached from an input) the list of hazards is empty.
\<close>

theorem reconvergent_static0_and_no_negation_none:
  "hazards (detect_hazards (reconvergent_circuit d_not d_and w1 w2 w3))
     = [\<lparr>hz_variable = ''A'', hz_other_inputs = None, hz_hazard_type = Static0,
         hz_hazard_gates =
           [\<lparr>hg_gate_id = ''g2'', hg_gate_type = ''AND'', hg_inputs = [''a'', ''g1''],
             hg_hazard_type = Static0, hg_critical = True\<rparr>]\<rparr>]
   \<and> (list_all (\<lambda>kd. direct_not_gates c (fst kd) = []) (inputs c)
        \<longrightarrow> hazards (detect_hazards c) = [])"
  by (simp add: detect_hazards_def [of "reconvergent_circuit d_not d_and w1 w2 w3"]
      run_detection_def reconvergent_by_expression reconvergent_direct no_negation_no_hazards)

theorem or_and_circuit_has_no_hazards:
  "list_all (\<lambda>kd. direct_not_gates or_and_circuit (fst kd) = []) (inputs or_and_circuit)
   \<and> hazards (detect_hazards or_and_circuit) = []"
proof -
  have free: "list_all (\<lambda>kd. direct_not_gates or_and_circuit (fst kd) = [])
                (inputs or_and_circuit)"
    by code_simp
  from reconvergent_static0_and_no_negation_none [of 1 2 0 0 0 or_and_circuit] free
  show ?thesis by blast
qed

subsection \<open>Primary inputs registered by the parser\<close>

lemma upper_char_not_lower: "upper_char ch \<notin> set lowercase_letters"
  by (simp add: upper_char_def lowercase_letters_def uppercase_letters_def)

lemma upper_lower_char: "ch \<notin> set lowercase_letters \<Longrightarrow> upper_char (lower_char ch) = ch"
  by (simp add: upper_char_def lower_char_def lowercase_letters_def uppercase_letters_def)

lemma upper_lower: "set s \<inter> set lowercase_letters = {} \<Longrightarrow> upper (lower s) = s"
  by (induction s) (auto simp: upper_def lower_def upper_lower_char)

lemma set_replace: "set (replace old new s) \<subseteq> set s \<union> set new"
proof (induction old new s rule: replace.induct)
  case (1 old new)
  then show ?case by simp
next
  case (2 old new ch s)
  show ?case
  proof (cases "old \<noteq> [] \<and> take (length old) (ch # s) = old")
    case True
    with 2(1) have "set (replace old new (drop (length old) (ch # s))) \<subseteq> set (drop (length old) (ch # s)) \<union> set new"
      by simp
    moreover have "set (drop (length old) (ch # s)) \<subseteq> set (ch # s)"
      by (rule set_drop_subset)
    ultimately show ?thesis using True by auto
  next
    case False
    with 2(2) show ?thesis by auto
  qed
qed

lemma set_strip: "set (strip s) \<subseteq> set s"
proof -
  have "set (dropWhile isspace (rev (dropWhile isspace s))) \<subseteq> set (rev (dropWhile isspace s))"
    by (rule set_dropWhileD [THEN subsetI])
  also have "\<dots> \<subseteq> set s"
    using set_dropWhileD [of _ isspace s] by auto
  finally show ?thesis by (simp add: strip_def)
qed

lemma tokenize_loop_chars:
  assumes "tokenize_loop s tokens current = (tokens', current')"
    and "\<forall>t \<in> set tokens. set t \<subseteq> A" and "set current \<subseteq> A" and "set s \<subseteq> A"
  shows "(\<forall>t \<in> set tokens'. set t \<subseteq> A) \<and> set current' \<subseteq> A"
  using assms
proof (induction s arbitrary: tokens current)
  case Nil
  then show ?case by simp
next
  case (Cons ch rest)
  have strip: "set (strip current) \<subseteq> A"
    using set_strip [of current] Cons.prems(3) by blast
  from Cons.prems(4) have ch: "ch \<in> A" and rest: "set rest \<subseteq> A" by simp_all
  show ?case
  proof (cases "ch \<in> set ''&|!()''")
    case True
    with Cons.prems(1) have run: "tokenize_loop rest ((if current = [] then tokens else tokens @ [strip current]) @ [[ch]]) [] = (tokens', current')"
      by simp
    show ?thesis
      by (rule Cons.IH [OF run]) (use Cons.prems(2) strip ch rest in auto)
  next
    case False
    show ?thesis
    proof (cases "isspace ch")
      case True
      with False Cons.prems(1) have run: "tokenize_loop rest (if current = [] then tokens else tokens @ [strip current]) [] = (tokens', current')"
        by simp
      show ?thesis
        by (rule Cons.IH [OF run]) (use Cons.prems(2) strip rest in auto)
    next
      case notspace: False
      with False Cons.prems(1) have run: "tokenize_loop rest tokens (current @ [ch]) = (tokens', current')"
        by simp
      show ?thesis
        by (rule Cons.IH [OF run]) (use Cons.prems(2,3) ch rest in auto)
    qed
  qed
qed

lemma tokenize_no_lowercase:
  assumes "t \<in> set (tokenize expression)"
  shows "set t \<inter> set lowercase_letters = {}"
proof -
  define A where "A = - set lowercase_letters"
  define e where "e = replace ''NOT'' ''!'' (replace ''OR'' ''|'' (replace ''AND'' ''&'' (upper expression)))"
  have up: "set (upper expression) \<subseteq> A"
    by (auto simp: upper_def upper_char_not_lower A_def)
  have ops: "set ''&'' \<subseteq> A" "set ''|'' \<subseteq> A" "set ''!'' \<subseteq> A"
    by (simp_all add: lowercase_letters_def A_def)
  have e: "set e \<subseteq> A"
  proof -
    have "set (replace ''AND'' ''&'' (upper expression)) \<subseteq> A"
      using set_replace [of "''AND''" "''&''" "upper expression"] up ops(1)
      by blast
    then have "set (replace ''OR'' ''|'' (replace ''AND'' ''&'' (upper expression))) \<subseteq> A"
      using set_replace [of "''OR''" "''|''" "replace ''AND'' ''&'' (upper expression)"] ops(2)
      by blast
    then show ?thesis
      unfolding e_def
      using set_replace [of "''NOT''" "''!''" "replace ''OR'' ''|'' (replace ''AND'' ''&'' (upper expression))"] ops(3)
      by blast
  qed
  obtain tokens current where run: "tokenize_loop e [] [] = (tokens, current)"
    by (cases "tokenize_loop e [] []")
  have start: "\<forall>t \<in> set ([] :: string list). set t \<subseteq> A" "set ([] :: string) \<subseteq> A"
    by simp_all
  from tokenize_loop_chars [OF run start e]
  have toks: "\<forall>t \<in> set tokens. set t \<subseteq> A" and cur: "set current \<subseteq> A"
    by blast+
  from cur have "set (strip current) \<subseteq> A"
    using set_strip [of current] by blast
  moreover have "tokenize expression = (if current = [] then tokens else tokens @ [strip current])"
    using run by (simp add: tokenize_def e_def)
  ultimately have "set t \<subseteq> A"
    using toks assms by (auto split: if_splits)
  then show ?thesis by (auto simp: A_def)
qed


lemma create_gate_inputs:
  "create_gate p circuit operator stack = Inr (p', circuit', stack') \<Longrightarrow> inputs circuit' = inputs circuit"
  by (auto simp: create_gate_def generate_gate_id_def add_gate_def add_connection_def
      split: if_splits list.splits)

lemma reduce_pending_inputs:
  "reduce_pending token operators p circuit stack = Inr (operators', p', circuit', stack')
   \<Longrightarrow> inputs circuit' = inputs circuit"
proof (induction operators arbitrary: p circuit stack)
  case Nil
  then show ?case by simp
next
  case (Cons operator operators)
  then show ?case
    by (auto split: if_splits sum.splits dest: create_gate_inputs)
qed

lemma reduce_to_paren_inputs:
  "reduce_to_paren operators p circuit stack = Inr (operators', p', circuit', stack')
   \<Longrightarrow> inputs circuit' = inputs circuit"
proof (induction operators arbitrary: p circuit stack)
  case Nil
  then show ?case by simp
next
  case (Cons operator operators)
  then show ?case
    by (auto split: if_splits sum.splits dest: create_gate_inputs)
qed

lemma reduce_all_inputs:
  "reduce_all operators p circuit stack = Inr (p', circuit', stack')
   \<Longrightarrow> inputs circuit' = inputs circuit"
proof (induction operators arbitrary: p circuit stack)
  case Nil
  then show ?case by simp
next
  case (Cons operator operators)
  then show ?case
    by (auto split: sum.splits dest: create_gate_inputs)
qed

lemma build_loop_inputs:
  "build_loop tokens operators p circuit stack = Inr (operators', p', circuit', stack')
   \<Longrightarrow> inputs circuit' = inputs circuit"
proof (induction tokens arbitrary: operators p circuit stack)
  case Nil
  then show ?case by simp
next
  case (Cons token tokens)
  then show ?case
    by (auto split: if_splits sum.splits dest: reduce_pending_inputs reduce_to_paren_inputs)
qed

lemma build_gates_inputs:
  assumes "build_gates p circuit tokens = Inr (p', circuit', output_id)"
  shows "inputs circuit' = inputs circuit"
proof -
  from assms obtain operators p1 circuit1 stack1 stack' where
    loop: "build_loop tokens [] p circuit [] = Inr (operators, p1, circuit1, stack1)"
    and rest: "reduce_all operators p1 circuit1 stack1 = Inr (p', circuit', stack')"
    by (auto simp: build_gates_def split: sum.splits list.splits)
  from reduce_all_inputs [OF rest] build_loop_inputs [OF loop] show ?thesis
    by simp
qed

lemma update_fresh_key:
  "k \<notin> fst ` set xs \<Longrightarrow> AList.update k v xs = xs @ [(k, v)]"
  by (induction xs) auto

lemma fold_add_input:
  assumes "distinct (map f vars)" and "set (map f vars) \<inter> fst ` set (inputs circuit) = {}"
  shows "inputs (fold (\<lambda>var circuit. add_input circuit (f var) var v) vars circuit)
         = inputs circuit @ map (\<lambda>var. (f var, \<lparr>in_name = var, initial_value = v\<rparr>)) vars"
  using assms
proof (induction vars arbitrary: circuit)
  case Nil
  then show ?case by simp
next
  case (Cons var vars)
  from Cons.prems(2) have fresh: "f var \<notin> fst ` set (inputs circuit)" by auto
  then have upd: "inputs (add_input circuit (f var) var v)
                  = inputs circuit @ [(f var, \<lparr>in_name = var, initial_value = v\<rparr>)]"
    by (simp add: add_input_def update_fresh_key)
  have ih: "inputs (fold (\<lambda>var circuit. add_input circuit (f var) var v) vars (add_input circuit (f var) var v))
         = inputs (add_input circuit (f var) var v) @ map (\<lambda>var. (f var, \<lparr>in_name = var, initial_value = v\<rparr>)) vars"
    by (rule Cons.IH) (use Cons.prems upd in auto)
  show ?case by (simp add: ih upd)
qed

lemma extract_inputs_set:
  "set (extract_inputs tokens) = {t \<in> set tokens. isalpha t \<and> t \<notin> set [''AND'', ''OR'', ''NOT'']}"
  by (auto simp: extract_inputs_def)

lemma lower_inj_on_tokens:
  "inj_on lower (set (tokenize expression))"
proof (rule inj_on_inverseI)
  fix t assume "t \<in> set (tokenize expression)"
  then show "upper (lower t) = t"
    by (intro upper_lower tokenize_no_lowercase)
qed

lemma separator_not_keyword_letter:
  "separator ch \<Longrightarrow> ch \<notin> set ''ANDORT''"
  by (auto simp: separator_def isspace_def)

lemma separator_not_letter:
  "separator ch \<Longrightarrow> ch \<notin> set (lowercase_letters @ uppercase_letters)"
  by (auto simp: separator_def isspace_def lowercase_letters_def uppercase_letters_def)

lemma upper_char_letter:
  "upper_char ch \<in> set (lowercase_letters @ uppercase_letters)
   \<longleftrightarrow> ch \<in> set (lowercase_letters @ uppercase_letters)"
  by (simp add: upper_char_def lowercase_letters_def uppercase_letters_def)

lemma upper_char_other:
  "ch \<notin> set (lowercase_letters @ uppercase_letters) \<Longrightarrow> upper_char ch = ch"
  by (simp add: upper_char_def lowercase_letters_def uppercase_letters_def)

lemma replace_split:
  assumes "c \<notin> set old"
  shows "replace old new (xs @ c # ys) = replace old new xs @ c # replace old new ys"
proof (induction xs rule: length_induct)
  case (1 xs)
  show ?case
  proof (cases xs)
    case Nil
    have "\<not> (old \<noteq> [] \<and> take (length old) (c # ys) = old)"
    proof
      assume match: "old \<noteq> [] \<and> take (length old) (c # ys) = old"
      then obtain k ks where old: "old = k # ks" by (cases old) auto
      with match have "k = c" by simp
      with old assms show False by simp
    qed
    with Nil show ?thesis by auto
  next
    case (Cons x xs')
    show ?thesis
    proof (cases "old \<noteq> [] \<and> take (length old) (xs @ c # ys) = old")
      case True
      have le: "length old \<le> length xs"
      proof (rule ccontr)
        assume "\<not> length old \<le> length xs"
        then have less: "length xs < length old" by simp
        then have "take (length old) (xs @ c # ys) ! length xs = c"
          by (simp add: nth_append)
        with True have "old ! length xs = c" by simp
        with less assms show False by (metis nth_mem)
      qed
      with True have match: "old \<noteq> [] \<and> take (length old) xs = old"
        by simp
      from le have rest: "drop (length old) (xs @ c # ys) = drop (length old) xs @ c # ys"
        by simp
      from True have "0 < length old" by simp
      with Cons have "length (drop (length old) xs) < length xs"
        by simp
      with 1 have ih: "replace old new (drop (length old) xs @ c # ys)
                       = replace old new (drop (length old) xs) @ c # replace old new ys"
        by blast
      have whole: "replace old new (xs @ c # ys)
            = new @ replace old new (drop (length old) (xs @ c # ys))"
        using True Cons by simp
      have part: "replace old new xs = new @ replace old new (drop (length old) xs)"
        using match Cons by simp
      show ?thesis
        by (simp only: whole part rest ih append_assoc)
    next
      case False
      have nomatch: "\<not> (old \<noteq> [] \<and> take (length old) xs = old)"
      proof
        assume match: "old \<noteq> [] \<and> take (length old) xs = old"
        then have "length (take (length old) xs) = length old" by simp
        then have "length old \<le> length xs" by simp
        with match have "take (length old) (xs @ c # ys) = old" by simp
        with match False show False by simp
      qed
      from Cons 1 have ih: "replace old new (xs' @ c # ys)
                            = replace old new xs' @ c # replace old new ys"
        by simp
      have "replace old new (xs @ c # ys) = x # replace old new (xs' @ c # ys)"
        using False Cons by auto
      moreover have "replace old new xs = x # replace old new xs'"
        using nomatch Cons by auto
      ultimately show ?thesis by (simp add: ih)
    qed
  qed
qed

lemma replace_absent:
  "\<not> occurs_in old s \<Longrightarrow> replace old new s = s"
  by (induction s) auto

lemma replace_join:
  assumes "\<forall>sv \<in> set rest. fst sv \<notin> set old"
  shows "replace old new (join w (map (\<lambda>sv. (fst sv, f (snd sv))) rest))
         = join (replace old new w) (map (\<lambda>sv. (fst sv, replace old new (f (snd sv)))) rest)"
  using assms
proof (induction rest arbitrary: w)
  case Nil
  then show ?case by simp
next
  case (Cons sv rest)
  then have "fst sv \<notin> set old" and "\<forall>sv \<in> set rest. fst sv \<notin> set old"
    by simp_all
  then show ?case
    by (simp add: replace_split Cons.IH)
qed

lemma upper_join:
  assumes "\<forall>sv \<in> set rest. separator (fst sv)"
  shows "upper (join w rest) = join (upper w) (map (\<lambda>sv. (fst sv, upper (snd sv))) rest)"
  using assms
proof (induction rest arbitrary: w)
  case Nil
  then show ?case by simp
next
  case (Cons sv rest)
  then have "separator (fst sv)" by simp
  then have "upper_char (fst sv) = fst sv"
    by (intro upper_char_other separator_not_letter)
  moreover have "upper (join (snd sv) rest)
                 = join (upper (snd sv)) (map (\<lambda>sv. (fst sv, upper (snd sv))) rest)"
    using Cons by simp
  moreover have "upper (xs @ ys) = upper xs @ upper ys" for xs ys
    by (simp add: upper_def)
  moreover have "upper (x # xs) = upper_char x # upper xs" for x xs
    by (simp add: upper_def)
  ultimately show ?case by simp
qed

lemma join_exists:
  "\<exists>w rest. s = join w rest \<and> (\<forall>ch \<in> set w. \<not> separator ch)
      \<and> (\<forall>sv \<in> set rest. separator (fst sv) \<and> (\<forall>ch \<in> set (snd sv). \<not> separator ch))"
proof (induction s)
  case Nil
  have "[] = join [] []" by simp
  then show ?case by fastforce
next
  case (Cons ch s)
  then obtain w rest where s: "s = join w rest" and w: "\<forall>ch \<in> set w. \<not> separator ch"
    and rest: "\<forall>sv \<in> set rest. separator (fst sv) \<and> (\<forall>ch \<in> set (snd sv). \<not> separator ch)"
    by blast
  show ?case
  proof (cases "separator ch")
    case True
    have "ch # s = join [] ((ch, w) # rest)" by (simp add: s)
    moreover have "\<forall>sv \<in> set ((ch, w) # rest).
                     separator (fst sv) \<and> (\<forall>ch \<in> set (snd sv). \<not> separator ch)"
      using True w rest by simp
    moreover have "\<forall>ch \<in> set ([] :: string). \<not> separator ch" by simp
    ultimately show ?thesis by blast
  next
    case False
    have "ch # s = join (ch # w) rest"
      by (cases rest) (simp_all add: s)
    moreover have "\<forall>c \<in> set (ch # w). \<not> separator c"
      using False w by simp
    ultimately show ?thesis using rest by blast
  qed
qed

lemma split_words_word:
  "\<forall>ch \<in> set w. \<not> separator ch \<Longrightarrow> split_words (w @ s) current = split_words s (current @ w)"
  by (induction w arbitrary: current) simp_all

lemma split_words_join:
  assumes "\<forall>ch \<in> set w. \<not> separator ch"
    and "\<forall>sv \<in> set rest. separator (fst sv) \<and> (\<forall>ch \<in> set (snd sv). \<not> separator ch)"
  shows "split_words (join w rest) current
         = filter (\<lambda>x. x \<noteq> []) ((current @ w) # map snd rest)"
  using assms
proof (induction rest arbitrary: w current)
  case Nil
  from split_words_word [OF Nil(1), of "[]" current] show ?case by simp
next
  case (Cons sv rest)
  have "split_words (join w (sv # rest)) current
        = split_words (fst sv # join (snd sv) rest) (current @ w)"
    using split_words_word [OF Cons.prems(1)] by simp
  also have "\<dots> = (if current @ w = [] then [] else [current @ w])
                   @ split_words (join (snd sv) rest) []"
    using Cons.prems(2) by simp
  also have "split_words (join (snd sv) rest) []
             = filter (\<lambda>x. x \<noteq> []) (([] @ snd sv) # map snd rest)"
    by (rule Cons.IH) (use Cons.prems(2) in simp_all)
  finally show ?case by simp
qed

lemma words_of_join:
  assumes "\<forall>ch \<in> set w. \<not> separator ch"
    and "\<forall>sv \<in> set rest. separator (fst sv) \<and> (\<forall>ch \<in> set (snd sv). \<not> separator ch)"
  shows "words_of (join w rest) = filter (\<lambda>x. x \<noteq> []) (w # map snd rest)"
  using split_words_join [OF assms, of "[]"] by (simp add: words_of_def)

lemma tokenize_finish:
  "tokenize expression = finish (tokenize_loop (rewrite_keywords (upper expression)) [] [])"
  by (simp add: tokenize_def finish_def rewrite_keywords_def)

lemma rewrite_keywords_join:
  assumes "\<forall>sv \<in> set rest. separator (fst sv)"
  shows "rewrite_keywords (join w rest)
         = join (rewrite_keywords w) (map (\<lambda>sv. (fst sv, rewrite_keywords (snd sv))) rest)"
proof -
  have sep: "fst sv \<notin> set ''AND'' \<and> fst sv \<notin> set ''OR'' \<and> fst sv \<notin> set ''NOT''"
    if "sv \<in> set rest" for sv
  proof -
    from that assms have "separator (fst sv)" by blast
    from separator_not_keyword_letter [OF this] show ?thesis by simp
  qed
  have s1: "\<forall>sv \<in> set rest. fst sv \<notin> set ''AND''"
    and s2: "\<forall>sv \<in> set rest. fst sv \<notin> set ''OR''"
    and s3: "\<forall>sv \<in> set rest. fst sv \<notin> set ''NOT''"
    using sep by blast+
  have "join w rest = join w (map (\<lambda>sv. (fst sv, snd sv)) rest)"
    by simp
  then have one: "replace ''AND'' ''&'' (join w rest)
             = join (replace ''AND'' ''&'' w)
                 (map (\<lambda>sv. (fst sv, replace ''AND'' ''&'' (snd sv))) rest)"
    using replace_join [where f = "\<lambda>v. v", OF s1, of "''&''" w] by simp
  note two = replace_join [where f = "replace ''AND'' ''&''", OF s2,
      of "''|''" "replace ''AND'' ''&'' w"]
  note three = replace_join [where f = "\<lambda>v. replace ''OR'' ''|'' (replace ''AND'' ''&'' v)", OF s3,
      of "''!''" "replace ''OR'' ''|'' (replace ''AND'' ''&'' w)"]
  show ?thesis
    unfolding rewrite_keywords_def by (simp only: one two three)
qed

lemma dropWhile_none: "\<forall>ch \<in> set x. \<not> P ch \<Longrightarrow> dropWhile P x = x"
  by (cases x) simp_all

lemma strip_plain:
  assumes "plain x"
  shows "strip x = x"
proof -
  from assms have "\<forall>ch \<in> set x. \<not> isspace ch"
    by (simp add: plain_def separator_def)
  then show ?thesis
    by (simp add: strip_def dropWhile_none)
qed

lemma tokenize_loop_word:
  "plain x \<Longrightarrow> tokenize_loop (x @ s) tokens current = tokenize_loop s tokens (current @ x)"
proof (induction x arbitrary: current)
  case Nil
  then show ?case by simp
next
  case (Cons ch x)
  then have "\<not> separator ch" and "plain x"
    by (simp_all add: plain_def)
  then have "ch \<notin> set ''&|!()''" and "\<not> isspace ch"
    by (simp_all add: separator_def)
  with Cons.IH [OF \<open>plain x\<close>, of "current @ [ch]"] show ?case by simp
qed

lemma tokenize_loop_separator:
  assumes "separator ch"
  shows "tokenize_loop (ch # s) tokens current
         = tokenize_loop s
             (tokens @ (if current = [] then [] else [strip current]) @ separator_token ch) []"
proof (cases "ch \<in> set ''&|!()''")
  case True
  then show ?thesis by (simp add: separator_token_def)
next
  case False
  with assms have "isspace ch" by (simp add: separator_def)
  with False show ?thesis by (simp add: separator_token_def)
qed

lemma tokenize_loop_operator:
  assumes "x \<in> set [''&'', ''|'', ''!'']"
  shows "tokenize_loop (x @ s) tokens [] = tokenize_loop s (tokens @ [x]) []"
proof -
  from assms consider "x = ''&''" | "x = ''|''" | "x = ''!''" by auto
  then show ?thesis
    by cases simp_all
qed

lemma tokenize_loop_word_separator:
  assumes "plain x \<or> x \<in> set [''&'', ''|'', ''!'']" and "separator ch"
  shows "tokenize_loop (x @ ch # s) tokens []
         = tokenize_loop s (tokens @ word_token x @ separator_token ch) []"
  using assms(1)
proof
  assume x: "plain x"
  have "tokenize_loop (x @ ch # s) tokens [] = tokenize_loop (ch # s) tokens x"
    using tokenize_loop_word [OF x, of "ch # s" tokens "[]"] by simp
  also have "\<dots> = tokenize_loop s
                     (tokens @ (if x = [] then [] else [strip x]) @ separator_token ch) []"
    by (rule tokenize_loop_separator [OF assms(2)])
  finally show ?thesis
    by (simp add: word_token_def strip_plain [OF x])
next
  assume x: "x \<in> set [''&'', ''|'', ''!'']"
  then have "x \<noteq> []" by auto
  have "tokenize_loop (x @ ch # s) tokens [] = tokenize_loop (ch # s) (tokens @ [x]) []"
    by (rule tokenize_loop_operator [OF x])
  also have "\<dots> = tokenize_loop s ((tokens @ [x]) @ [] @ separator_token ch) []"
    using tokenize_loop_separator [OF assms(2), of s "tokens @ [x]" "[]"] by simp
  finally show ?thesis
    using \<open>x \<noteq> []\<close> by (simp add: word_token_def)
qed

lemma tokenize_loop_last_word:
  assumes "plain x \<or> x \<in> set [''&'', ''|'', ''!'']"
  shows "finish (tokenize_loop x tokens []) = tokens @ word_token x"
  using assms
proof
  assume x: "plain x"
  from tokenize_loop_word [OF x, of "[]" tokens "[]"]
  have "tokenize_loop x tokens [] = (tokens, x)" by simp
  then show ?thesis
    by (simp add: finish_def word_token_def strip_plain [OF x])
next
  assume x: "x \<in> set [''&'', ''|'', ''!'']"
  then have "x \<noteq> []" by auto
  from tokenize_loop_operator [OF x, of "[]" tokens]
  have "tokenize_loop x tokens [] = (tokens @ [x], [])" by simp
  with \<open>x \<noteq> []\<close> show ?thesis
    by (simp add: finish_def word_token_def)
qed

lemma tokenize_loop_join:
  assumes "plain w \<or> w \<in> set [''&'', ''|'', ''!'']"
    and "\<forall>sv \<in> set rest. separator (fst sv)
           \<and> (plain (snd sv) \<or> snd sv \<in> set [''&'', ''|'', ''!''])"
  shows "finish (tokenize_loop (join w rest) tokens [])
         = tokens @ word_token w
           @ concat (map (\<lambda>sv. separator_token (fst sv) @ word_token (snd sv)) rest)"
  using assms
proof (induction rest arbitrary: w tokens)
  case Nil
  then show ?case by (simp add: tokenize_loop_last_word)
next
  case (Cons sv rest)
  from Cons.prems(2) have sep: "separator (fst sv)"
    and word: "plain (snd sv) \<or> snd sv \<in> set [''&'', ''|'', ''!'']"
    and rest: "\<forall>sv \<in> set rest. separator (fst sv)
                 \<and> (plain (snd sv) \<or> snd sv \<in> set [''&'', ''|'', ''!''])"
    by simp_all
  have "tokenize_loop (join w (sv # rest)) tokens []
        = tokenize_loop (join (snd sv) rest) (tokens @ word_token w @ separator_token (fst sv)) []"
    using tokenize_loop_word_separator [OF Cons.prems(1) sep] by simp
  then show ?case
    by (simp add: Cons.IH [OF word rest])
qed

lemma upper_char_plain: "\<not> separator ch \<Longrightarrow> \<not> separator (upper_char ch)"
proof (cases "ch \<in> set (lowercase_letters @ uppercase_letters)")
  case True
  then have "upper_char ch \<in> set (lowercase_letters @ uppercase_letters)"
    by (simp only: upper_char_letter)
  with separator_not_letter show ?thesis by blast
next
  case False
  assume "\<not> separator ch"
  with upper_char_other [OF False] show ?thesis by simp
qed

lemma plain_upper: "plain v \<Longrightarrow> plain (upper v)"
  by (auto simp: plain_def upper_def upper_char_plain)

lemma isalpha_upper: "isalpha (upper v) = isalpha v"
proof -
  define L where "L = set (lowercase_letters @ uppercase_letters)"
  have letter: "upper_char ch \<in> L \<longleftrightarrow> ch \<in> L" for ch
    unfolding L_def by (rule upper_char_letter)
  have "(\<forall>ch \<in> set (map upper_char v). ch \<in> L) = (\<forall>ch \<in> set v. ch \<in> L)"
    by (simp add: letter)
  then show ?thesis
    unfolding isalpha_def upper_def list_all_iff L_def [symmetric] by simp
qed

lemma isalpha_symbol: "separator ch \<Longrightarrow> \<not> isalpha [ch]"
  using separator_not_letter [of ch] by (simp add: isalpha_def list_all_iff del: set_append)

lemma rewrite_keywords_literals:
  "rewrite_keywords ''AND'' = ''&''" "rewrite_keywords ''OR'' = ''|''"
  "rewrite_keywords ''NOT'' = ''!''"
  by code_simp+

lemma rewrite_word:
  assumes "keyword v \<or> keyword_free v"
  shows "rewrite_keywords (upper v)
         = (if upper v = ''AND'' then ''&'' else if upper v = ''OR'' then ''|''
            else if upper v = ''NOT'' then ''!'' else upper v)"
proof (cases "keyword v")
  case True
  then consider "upper v = ''AND''" | "upper v = ''OR''" | "upper v = ''NOT''"
    by (auto simp: keyword_def)
  then show ?thesis
    by cases (simp_all add: rewrite_keywords_literals)
next
  case False
  with assms have free: "keyword_free v" by simp
  then have "rewrite_keywords (upper v) = upper v"
    by (simp add: keyword_free_def rewrite_keywords_def replace_absent)
  moreover from False have "upper v \<noteq> ''AND''" "upper v \<noteq> ''OR''" "upper v \<noteq> ''NOT''"
    by (simp_all add: keyword_def)
  ultimately show ?thesis by simp
qed

lemma rewritten_word_shape:
  assumes "plain v" and "keyword v \<or> keyword_free v"
  shows "plain (rewrite_keywords (upper v))
         \<or> rewrite_keywords (upper v) \<in> set [''&'', ''|'', ''!'']"
  using plain_upper [OF assms(1)] by (simp add: rewrite_word [OF assms(2)])

lemma word_inputs:
  assumes "keyword v \<or> keyword_free v"
  shows "filter (\<lambda>token. isalpha token \<and> token \<notin> set [''AND'', ''OR'', ''NOT''])
           (word_token (rewrite_keywords (upper v)))
         = (if isalpha v \<and> \<not> keyword v then [upper v] else [])"
proof (cases "keyword v")
  case True
  then consider "upper v = ''AND''" | "upper v = ''OR''" | "upper v = ''NOT''"
    by (auto simp: keyword_def)
  then have "rewrite_keywords (upper v) \<in> set [''&'', ''|'', ''!'']"
    by cases (simp_all add: rewrite_keywords_literals)
  then consider "rewrite_keywords (upper v) = ''&''" | "rewrite_keywords (upper v) = ''|''"
    | "rewrite_keywords (upper v) = ''!''"
    by auto
  then have "\<not> isalpha (rewrite_keywords (upper v)) \<and> rewrite_keywords (upper v) \<noteq> []"
  proof cases
    case 1
    have "separator CHR ''&''" by (simp add: separator_def)
    from isalpha_symbol [OF this] 1 show ?thesis by simp
  next
    case 2
    have "separator CHR ''|''" by (simp add: separator_def)
    from isalpha_symbol [OF this] 2 show ?thesis by simp
  next
    case 3
    have "separator CHR ''!''" by (simp add: separator_def)
    from isalpha_symbol [OF this] 3 show ?thesis by simp
  qed
  with True show ?thesis by (simp add: word_token_def)
next
  case False
  with assms have "rewrite_keywords (upper v) = upper v"
    using rewrite_word [OF assms] by (simp add: keyword_def)
  moreover have "upper v = [] \<Longrightarrow> \<not> isalpha v"
    by (simp add: upper_def isalpha_def)
  moreover from False have "upper v \<notin> set [''AND'', ''OR'', ''NOT'']"
    by (simp add: keyword_def)
  ultimately show ?thesis
    using False by (simp add: word_token_def isalpha_upper)
qed

lemma separator_inputs:
  "filter (\<lambda>token. isalpha token \<and> token \<notin> set [''AND'', ''OR'', ''NOT'']) (separator_token ch)
   = []"
proof (cases "ch \<in> set ''&|!()''")
  case True
  then have "separator ch" by (simp add: separator_def)
  from isalpha_symbol [OF this] True show ?thesis
    by (simp add: separator_token_def)
next
  case False
  then show ?thesis by (simp add: separator_token_def)
qed

lemma joined_inputs:
  assumes "\<forall>sv \<in> set rest. keyword (snd sv) \<or> keyword_free (snd sv)"
  shows "filter (\<lambda>token. isalpha token \<and> token \<notin> set [''AND'', ''OR'', ''NOT''])
           (concat (map (\<lambda>sv. separator_token (fst sv)
                               @ word_token (rewrite_keywords (upper (snd sv)))) rest))
         = map upper (filter (\<lambda>w. isalpha w \<and> \<not> keyword w) (map snd rest))"
  using assms
proof (induction rest)
  case Nil
  then show ?case by simp
next
  case (Cons sv rest)
  then have word: "keyword (snd sv) \<or> keyword_free (snd sv)"
    and rest: "\<forall>sv \<in> set rest. keyword (snd sv) \<or> keyword_free (snd sv)"
    by simp_all
  show ?case
    by (simp add: separator_inputs word_inputs [OF word] Cons.IH [OF rest]
        del: set_simps)
qed

lemma alphabetic_tokens:
  assumes "list_all (\<lambda>w. keyword w \<or> keyword_free w) (words_of expression)"
  shows "filter (\<lambda>token. isalpha token \<and> token \<notin> set [''AND'', ''OR'', ''NOT''])
           (tokenize expression)
         = map upper (operands expression)"
proof -
  let ?P = "\<lambda>token. isalpha token \<and> token \<notin> set [''AND'', ''OR'', ''NOT'']"
  let ?Q = "\<lambda>w. isalpha w \<and> \<not> keyword w"
  let ?kw = "\<lambda>v. rewrite_keywords (upper v)"
  from join_exists [of expression] obtain w rest
    where e: "expression = join w rest" and w: "plain w"
      and rest: "\<forall>sv \<in> set rest. separator (fst sv) \<and> plain (snd sv)"
    unfolding plain_def by blast
  from rest have seps: "\<forall>sv \<in> set rest. separator (fst sv)" by blast
  have "words_of expression = filter (\<lambda>x. x \<noteq> []) (w # map snd rest)"
    unfolding e by (rule words_of_join) (use w rest in \<open>auto simp: plain_def\<close>)
  then have words: "words_of expression = filter (\<lambda>x. x \<noteq> []) (w # map snd rest)" .
  have empty: "keyword_free []"
    by (simp add: keyword_free_def upper_def)
  have ok: "keyword v \<or> keyword_free v" if "v \<in> set (w # map snd rest)" for v
  proof (cases "v = []")
    case True
    with empty show ?thesis by simp
  next
    case False
    with that have "v \<in> set (words_of expression)"
      unfolding words by auto
    with assms show ?thesis
      by (simp add: list_all_iff)
  qed
  then have ok_w: "keyword w \<or> keyword_free w"
    and ok_rest: "\<forall>sv \<in> set rest. keyword (snd sv) \<or> keyword_free (snd sv)"
    by simp_all
  have "upper expression = join (upper w) (map (\<lambda>sv. (fst sv, upper (snd sv))) rest)"
    unfolding e by (rule upper_join [OF seps])
  moreover have "\<forall>sv \<in> set (map (\<lambda>sv. (fst sv, upper (snd sv))) rest). separator (fst sv)"
    using seps by simp
  ultimately have "rewrite_keywords (upper expression)
        = join (?kw w)
            (map (\<lambda>sv. (fst sv, rewrite_keywords (snd sv)))
               (map (\<lambda>sv. (fst sv, upper (snd sv))) rest))"
    by (simp only: rewrite_keywords_join)
  then have rewritten: "rewrite_keywords (upper expression)
        = join (?kw w) (map (\<lambda>sv. (fst sv, ?kw (snd sv))) rest)"
    by (simp add: comp_def)
  have shape_w: "plain (?kw w) \<or> ?kw w \<in> set [''&'', ''|'', ''!'']"
    by (rule rewritten_word_shape [OF w ok_w])
  have shape_rest: "\<forall>sv \<in> set (map (\<lambda>sv. (fst sv, ?kw (snd sv))) rest).
                      separator (fst sv)
                      \<and> (plain (snd sv) \<or> snd sv \<in> set [''&'', ''|'', ''!''])"
  proof
    fix sv assume "sv \<in> set (map (\<lambda>sv. (fst sv, ?kw (snd sv))) rest)"
    then obtain sv' where sv': "sv' \<in> set rest" and sv: "sv = (fst sv', ?kw (snd sv'))"
      by auto
    from sv' rest ok_rest have "separator (fst sv')" "plain (snd sv')"
      "keyword (snd sv') \<or> keyword_free (snd sv')"
      by blast+
    with rewritten_word_shape [of "snd sv'"] sv
    show "separator (fst sv) \<and> (plain (snd sv) \<or> snd sv \<in> set [''&'', ''|'', ''!''])"
      by simp
  qed
  have "tokenize expression
        = [] @ word_token (?kw w)
          @ concat (map (\<lambda>sv. separator_token (fst sv) @ word_token (snd sv))
                      (map (\<lambda>sv. (fst sv, ?kw (snd sv))) rest))"
    unfolding tokenize_finish rewritten
    by (rule tokenize_loop_join [OF shape_w shape_rest])
  then have tokens: "tokenize expression
        = word_token (?kw w)
          @ concat (map (\<lambda>sv. separator_token (fst sv) @ word_token (?kw (snd sv))) rest)"
    by (simp add: comp_def)
  have "filter ?P (tokenize expression)
        = (if ?Q w then [upper w] else []) @ map upper (filter ?Q (map snd rest))"
    unfolding tokens filter_append
    by (simp only: word_inputs [OF ok_w] joined_inputs [OF ok_rest])
  also have "\<dots> = map upper (filter ?Q (w # map snd rest))"
    by simp
  also have "filter ?Q (w # map snd rest) = filter ?Q (filter (\<lambda>x. x \<noteq> []) (w # map snd rest))"
  proof -
    have "?Q x \<longrightarrow> x \<noteq> []" for x
      by (auto simp: isalpha_def)
    then have "(\<lambda>x. x \<noteq> [] \<and> ?Q x) = ?Q" by blast
    then show ?thesis by (simp only: filter_filter)
  qed
  finally show ?thesis
    by (simp only: operands_def words)
qed

lemma extract_inputs_operands:
  assumes "list_all (\<lambda>w. keyword w \<or> keyword_free w) (words_of expression)"
  shows "extract_inputs (tokenize expression) = sort (remdups (map upper (operands expression)))"
  by (simp only: extract_inputs_def alphabetic_tokens [OF assms])

lemma parse_inputs_of_tokens:
  assumes "parse p expression = Inr (p', c)"
  shows "inputs c = map (\<lambda>var. (lower var, \<lparr>in_name = var, initial_value = 0\<rparr>))
                        (extract_inputs (tokenize expression))
         \<and> distinct (map fst (inputs c))"
proof -
  let ?vars = "extract_inputs (tokenize expression)"
  let ?start = "fold (\<lambda>var circuit. add_input circuit (lower var) var 0) ?vars
                  (new_circuit ''parsed_circuit'')"
  have vars: "distinct ?vars"
    by (simp add: extract_inputs_def)
  have "set ?vars \<subseteq> set (tokenize expression)"
    by (auto simp: extract_inputs_set)
  then have "inj_on lower (set ?vars)"
    by (rule inj_on_subset [OF lower_inj_on_tokens])
  with vars have ids: "distinct (map lower ?vars)"
    by (simp add: distinct_map)
  from assms obtain circuit output_id where
    built: "build_gates p ?start (tokenize expression) = Inr (p', circuit, output_id)"
    and c: "c = add_output circuit ''out1'' ''Y'' output_id"
    by (auto simp: parse_def split: if_splits sum.splits)
  have "inputs c = inputs ?start"
    using build_gates_inputs [OF built] c by (simp add: add_output_def)
  also have "\<dots> = map (\<lambda>var. (lower var, \<lparr>in_name = var, initial_value = 0\<rparr>)) ?vars"
    using fold_add_input [OF ids, of "new_circuit ''parsed_circuit''" 0]
    by (simp add: new_circuit_def)
  finally have reg: "inputs c = map (\<lambda>var. (lower var, \<lparr>in_name = var, initial_value = 0\<rparr>)) ?vars" .
  have "map fst (inputs c) = map lower ?vars"
    by (simp add: reg comp_def)
  with ids have "distinct (map fst (inputs c))"
    by simp
  with reg show ?thesis
    by blast
qed

lemma lower_upper_char: "lower_char (upper_char ch) = lower_char ch"
  by (simp add: upper_char_def lower_char_def lowercase_letters_def uppercase_letters_def)

lemma lower_upper: "lower (upper s) = lower s"
  by (simp add: lower_def upper_def lower_upper_char)

text \<open>
  Claim C7 as stated fails: for \<open>B AND A\<close> the operands are first seen in the order
  \<open>B\<close>, \<open>A\<close>, but the inputs are registered in the order \<open>a\<close>, \<open>b\<close>.
\<close>

theorem parse_b_and_a_registers_a_first:
  "parse new_parser ''B AND A'' = Inr (\<lparr>gate_id_counter = 1\<rparr>, b_and_a_circuit)
   \<and> map fst (inputs b_and_a_circuit) = [''a'', ''b'']
   \<and> map fst (inputs b_and_a_circuit) \<noteq> [''b'', ''a'']"
proof (intro conjI)
  show "parse new_parser ''B AND A'' = Inr (\<lparr>gate_id_counter = 1\<rparr>, b_and_a_circuit)"
    by code_simp
qed (simp_all add: b_and_a_circuit_def)

text \<open>
  Claim C7, amended.  Let the expression be an ASCII string whose words (the maximal runs of
  characters other than white space, parentheses and the operator symbols) are either one
  of the keywords \<open>AND\<close>, \<open>OR\<close>, \<open>NOT\<close> in any case, or contain none of them.  Whenever
  \<open>parse\<close> succeeds on it, it registers exactly one primary input per distinct alphabetic
  operand, operands being compared without regard to case: the display name is the operand
  in upper case (not as written), the id is the operand in lower case, the initial value is
  0, and the inputs are registered in ascending order of the upper-cased names (the order
  of \<open>sorted\<close>), not in the order of first appearance.
\<close>

theorem parse_registers_sorted_operands:
  assumes "parse p expression = Inr (p', c)"
    and "ascii expression"
    and "list_all (\<lambda>w. keyword w \<or> keyword_free w) (words_of expression)"
  shows "inputs c = map (\<lambda>name. (lower name, \<lparr>in_name = name, initial_value = 0\<rparr>))
                        (sort (remdups (map upper (operands expression))))
       \<and> distinct (map fst (inputs c))
       \<and> length (inputs c) = card (upper ` set (operands expression))
       \<and> fst ` set (inputs c) = lower ` set (operands expression)"
proof -
  let ?names = "sort (remdups (map upper (operands expression)))"
  note tokens = parse_inputs_of_tokens [OF assms(1)]
  from tokens have ids: "distinct (map fst (inputs c))" ..
  from tokens have "inputs c = map (\<lambda>var. (lower var, \<lparr>in_name = var, initial_value = 0\<rparr>))
                                 (extract_inputs (tokenize expression))" ..
  then have reg: "inputs c
                  = map (\<lambda>name. (lower name, \<lparr>in_name = name, initial_value = 0\<rparr>)) ?names"
    by (simp only: extract_inputs_operands [OF assms(3)])
  have "length (inputs c) = length (remdups (map upper (operands expression)))"
    by (simp add: reg)
  also have "\<dots> = card (upper ` set (operands expression))"
    by (simp add: length_remdups_card_conv)
  finally have count: "length (inputs c) = card (upper ` set (operands expression))" .
  have "fst ` set (inputs c) = lower ` set ?names"
    by (simp add: reg image_image)
  also have "\<dots> = lower ` upper ` set (operands expression)"
    by simp
  also have "\<dots> = lower ` set (operands expression)"
    by (simp add: image_image lower_upper)
  finally have "fst ` set (inputs c) = lower ` set (operands expression)" .
  with reg ids count show ?thesis
    by blast
qed

theorem parse_lowercase_b_and_a_operands:
  "parse new_parser ''b and a'' = Inr (\<lparr>gate_id_counter = 1\<rparr>, b_and_a_circuit)
   \<and> ascii ''b and a''
   \<and> words_of ''b and a'' = [''b'', ''and'', ''a'']
   \<and> operands ''b and a'' = [''b'', ''a'']
   \<and> inputs b_and_a_circuit
       = [(''a'', \<lparr>in_name = ''A'', initial_value = 0\<rparr>),
          (''b'', \<lparr>in_name = ''B'', initial_value = 0\<rparr>)]"
proof -
  have parsed: "parse new_parser ''b and a'' = Inr (\<lparr>gate_id_counter = 1\<rparr>, b_and_a_circuit)"
    by code_simp
  have ascii: "ascii ''b and a''"
    by code_simp
  have words: "words_of ''b and a'' = [''b'', ''and'', ''a'']"
    by code_simp
  have plain: "list_all (\<lambda>w. keyword w \<or> keyword_free w) (words_of ''b and a'')"
    by code_simp
  have operands: "operands ''b and a'' = [''b'', ''a'']"
    by code_simp
  have names: "sort (remdups (map upper [''b'', ''a''])) = [''A'', ''B'']"
    by code_simp
  have low: "lower ''A'' = ''a''" "lower ''B'' = ''b''"
    by code_simp+
  from parse_registers_sorted_operands [OF parsed ascii plain]
  have "inputs b_and_a_circuit
        = map (\<lambda>name. (lower name, \<lparr>in_name = name, initial_value = 0\<rparr>))
            (sort (remdups (map upper (operands ''b and a''))))"
    by blast
  with parsed ascii words operands names low show ?thesis
    by simp
qed

subsection \<open>Topological sorting\<close>

lemma has_key_iff: "has_key d k \<longleftrightarrow> k \<in> fst ` set d"
  by (auto simp: has_key_def map_of_eq_None_iff split: option.splits)
     (metis map_of_eq_None_iff option.distinct(1))

lemma edges_of_Cons:
  "edges_of c (conn # conns) =
     (if gate_pair c conn then (conn_from conn, conn_to conn) # edges_of c conns else edges_of c conns)"
  by (simp add: edges_of_def)

lemma gate_edges_endpoints:
  "(u, v) \<in> set (gate_edges c) \<Longrightarrow> u \<in> fst ` set (gates c) \<and> v \<in> fst ` set (gates c)"
  by (auto simp: gate_edges_def edges_of_def gate_pair_def has_key_iff)

lemma map_of_key_Some: "k \<in> set (map fst xs) \<Longrightarrow> \<exists>v. map_of xs k = Some v"
  by (induction xs) auto

lemma build_graph_result:
  assumes "map fst graph = map fst (gates c)" and "map fst in_degree = map fst (gates c)"
  shows "\<exists>graph' in_degree'.
           build_graph c conns graph in_degree = Inr (graph', in_degree')
           \<and> map fst graph' = map fst (gates c) \<and> map fst in_degree' = map fst (gates c)
           \<and> (\<forall>u ns. map_of graph u = Some ns
                 \<longrightarrow> map_of graph' u = Some (ns @ successors (edges_of c conns) u))
           \<and> (\<forall>v d. map_of in_degree v = Some d
                 \<longrightarrow> map_of in_degree' v = Some (d + indeg_from (edges_of c conns) {} v))"
  using assms
proof (induction conns arbitrary: graph in_degree)
  case Nil
  then show ?case
    by (simp add: edges_of_def successors_def indeg_from_def)
next
  case (Cons conn conns)
  show ?case
  proof (cases "gate_pair c conn")
    case False
    then have "build_graph c (conn # conns) graph in_degree = build_graph c conns graph in_degree"
      and "edges_of c (conn # conns) = edges_of c conns"
      by (auto simp: gate_pair_def edges_of_Cons)
    with Cons.IH [OF Cons.prems] show ?thesis
      by simp
  next
    case True
    then have from_key: "conn_from conn \<in> set (map fst graph)"
      and to_key: "conn_to conn \<in> set (map fst in_degree)"
      using Cons.prems by (auto simp: gate_pair_def has_key_iff)
    from map_of_key_Some [OF from_key] obtain ns where ns: "map_of graph (conn_from conn) = Some ns"
      by blast
    from map_of_key_Some [OF to_key] obtain d where d: "map_of in_degree (conn_to conn) = Some d"
      by blast
    let ?graph = "AList.update (conn_from conn) (ns @ [conn_to conn]) graph"
    let ?deg = "AList.update (conn_to conn) (d + 1) in_degree"
    have keys: "map fst ?graph = map fst (gates c)" "map fst ?deg = map fst (gates c)"
      using from_key to_key Cons.prems by (simp_all add: update_keys)
    from Cons.IH [OF keys] obtain graph' in_degree' where
      run: "build_graph c conns ?graph ?deg = Inr (graph', in_degree')"
      and keys': "map fst graph' = map fst (gates c)" "map fst in_degree' = map fst (gates c)"
      and g': "\<And>u ms. map_of ?graph u = Some ms
                 \<Longrightarrow> map_of graph' u = Some (ms @ successors (edges_of c conns) u)"
      and d': "\<And>v k. map_of ?deg v = Some k
                 \<Longrightarrow> map_of in_degree' v = Some (k + indeg_from (edges_of c conns) {} v)"
      by blast
    have step: "build_graph c (conn # conns) graph in_degree = Inr (graph', in_degree')"
      using True ns d run by (simp add: gate_pair_def)
    have "map_of graph' u = Some (ms @ successors (edges_of c (conn # conns)) u)"
      if "map_of graph u = Some ms" for u ms
    proof (cases "u = conn_from conn")
      case True
      with that ns have "map_of ?graph u = Some (ms @ [conn_to conn])"
        by (simp add: update_conv')
      from g' [OF this] show ?thesis
        using \<open>gate_pair c conn\<close> True by (simp add: edges_of_Cons successors_def)
    next
      case False
      with that have "map_of ?graph u = Some ms"
        by (simp add: update_conv')
      from g' [OF this] show ?thesis
        using \<open>gate_pair c conn\<close> False by (simp add: edges_of_Cons successors_def)
    qed
    moreover have "map_of in_degree' v = Some (k + indeg_from (edges_of c (conn # conns)) {} v)"
      if "map_of in_degree v = Some k" for v k
    proof (cases "v = conn_to conn")
      case True
      with that d have "map_of ?deg v = Some (k + 1)"
        by (simp add: update_conv')
      from d' [OF this] show ?thesis
        using \<open>gate_pair c conn\<close> True by (simp add: edges_of_Cons indeg_from_def)
    next
      case False
      with that have "map_of ?deg v = Some k"
        by (simp add: update_conv')
      from d' [OF this] show ?thesis
        using \<open>gate_pair c conn\<close> False by (simp add: edges_of_Cons indeg_from_def)
    qed
    ultimately show ?thesis
      using step keys' by blast
  qed
qed

lemma relax_result:
  assumes "\<forall>v \<in> set ns. \<exists>d. map_of in_degree v = Some d \<and> int (count_list ns v) \<le> d"
  shows "\<exists>in_degree' new.
           relax ns in_degree queue = Inr (in_degree', queue @ new)
           \<and> map fst in_degree' = map fst in_degree
           \<and> (\<forall>v d. map_of in_degree v = Some d
                 \<longrightarrow> map_of in_degree' v = Some (d - int (count_list ns v)))
           \<and> distinct new
           \<and> set new = {v \<in> set ns. map_of in_degree' v = Some 0}"
  using assms
proof (induction ns arbitrary: in_degree queue)
  case Nil
  then show ?case by simp
next
  case (Cons n ns)
  from Cons.prems obtain d where d: "map_of in_degree n = Some d"
    and bound: "int (count_list ns n) + 1 \<le> d"
    by auto
  let ?deg = "AList.update n (d - 1) in_degree"
  let ?q = "if d - 1 = 0 then queue @ [n] else queue"
  have key: "n \<in> set (map fst in_degree)"
    using d by (metis map_of_eq_None_iff option.distinct(1) set_map)
  have pre: "\<forall>v \<in> set ns. \<exists>k. map_of ?deg v = Some k \<and> int (count_list ns v) \<le> k"
  proof
    fix v assume v: "v \<in> set ns"
    show "\<exists>k. map_of ?deg v = Some k \<and> int (count_list ns v) \<le> k"
    proof (cases "v = n")
      case True
      with bound show ?thesis by (simp add: update_conv')
    next
      case False
      with Cons.prems v show ?thesis by (auto simp: update_conv')
    qed
  qed
  from Cons.IH [OF pre, of ?q] obtain in_degree' new where
    run: "relax ns ?deg ?q = Inr (in_degree', ?q @ new)"
    and keys: "map fst in_degree' = map fst ?deg"
    and vals: "\<And>v k. map_of ?deg v = Some k \<Longrightarrow> map_of in_degree' v = Some (k - int (count_list ns v))"
    and dist: "distinct new"
    and new: "set new = {v \<in> set ns. map_of in_degree' v = Some 0}"
    by blast
  let ?new = "(if d - 1 = 0 then [n] else []) @ new"
  have step: "relax (n # ns) in_degree queue = Inr (in_degree', queue @ ?new)"
    using d run by simp
  have keys': "map fst in_degree' = map fst in_degree"
    using keys key by (simp add: update_keys)
  have vals': "map_of in_degree' v = Some (k - int (count_list (n # ns) v))"
    if "map_of in_degree v = Some k" for v k
  proof (cases "v = n")
    case True
    with that d have "map_of ?deg v = Some (k - 1)"
      by (simp add: update_conv')
    from vals [OF this] True show ?thesis by simp
  next
    case False
    with that have "map_of ?deg v = Some k"
      by (simp add: update_conv')
    from vals [OF this] False show ?thesis by simp
  qed
  have final_n: "map_of in_degree' n = Some (d - 1 - int (count_list ns n))"
    using vals' [OF d] by simp
  have dist': "distinct ?new"
  proof (cases "d - 1 = 0")
    case True
    with bound have "count_list ns n = 0" by simp
    then have "n \<notin> set ns" by (simp add: count_list_0_iff)
    with new dist True show ?thesis by auto
  next
    case False
    with dist show ?thesis by simp
  qed
  have new': "set ?new = {v \<in> set (n # ns). map_of in_degree' v = Some 0}"
  proof (cases "d - 1 = 0")
    case True
    with bound have "count_list ns n = 0" by simp
    with final_n True have "map_of in_degree' n = Some 0" by simp
    with new True show ?thesis by auto
  next
    case False
    have "n \<in> set ns" if "map_of in_degree' n = Some 0"
    proof -
      from that final_n have "int (count_list ns n) = d - 1" by simp
      with False have "count_list ns n \<noteq> 0" by auto
      then show ?thesis by (simp add: count_list_0_iff)
    qed
    with new False show ?thesis by auto
  qed
  from step keys' vals' dist' new' show ?case
    by blast
qed

lemma indeg_from_insert:
  "g \<notin> S \<Longrightarrow>
   indeg_from E S v = indeg_from E (insert g S) v + int (count_list (successors E g) v)"
  by (induction E) (auto simp: indeg_from_def successors_def)

lemma indeg_from_nonneg: "0 \<le> indeg_from E S v"
  by (simp add: indeg_from_def)

lemma indeg_from_zero_iff:
  "indeg_from E S v = 0 \<longleftrightarrow> (\<forall>e \<in> set E. snd e = v \<longrightarrow> fst e \<in> S)"
  by (auto simp: indeg_from_def filter_empty_conv)

lemma appears_before_append:
  "appears_before xs u v \<Longrightarrow> appears_before (xs @ ys) u v"
  by (auto simp: appears_before_def)

lemma appears_before_snoc:
  assumes "v \<notin> set xs" and "u \<in> set xs"
  shows "appears_before (xs @ [v]) u v"
proof -
  have "takeWhile (\<lambda>x. x \<noteq> v) (xs @ [v]) = xs @ takeWhile (\<lambda>x. x \<noteq> v) [v]"
    by (rule takeWhile_append2) (use assms(1) in auto)
  with assms(2) show ?thesis
    by (simp add: appears_before_def)
qed

lemma kahn_step:
  assumes inv: "kahn_inv c graph (g # queue) sorted_gates in_degree"
  shows "\<exists>in_degree' new.
           map_of graph g = Some (successors (gate_edges c) g)
           \<and> relax (successors (gate_edges c) g) in_degree queue = Inr (in_degree', queue @ new)
           \<and> kahn_inv c graph (queue @ new) (sorted_gates @ [g]) in_degree'"
proof -
  let ?G = "fst ` set (gates c)"
  let ?E = "gate_edges c"
  let ?S = "set sorted_gates"
  let ?ns = "successors ?E g"
  from inv have k1: "map fst in_degree = map fst (gates c)"
    and k2: "\<And>u. u \<in> ?G \<Longrightarrow> map_of graph u = Some (successors ?E u)"
    and k3: "distinct (sorted_gates @ g # queue)"
    and k4: "set (sorted_gates @ g # queue) \<subseteq> ?G"
    and k5: "\<And>v. v \<in> ?G \<Longrightarrow> map_of in_degree v = Some (indeg_from ?E ?S v)"
    and k6: "\<And>v. v \<in> ?G \<Longrightarrow> v \<in> set (sorted_gates @ g # queue) \<longleftrightarrow> indeg_from ?E ?S v = 0"
    and k7: "\<And>e. e \<in> set ?E \<Longrightarrow> snd e \<in> ?S \<Longrightarrow> appears_before sorted_gates (fst e) (snd e)"
    by (auto simp: kahn_inv_def)
  from k3 k4 have g: "g \<in> ?G" "g \<notin> ?S" by auto
  have ns_gates: "set ?ns \<subseteq> ?G"
    using gate_edges_endpoints [of _ _ c] by (auto simp: successors_def)
  have split: "indeg_from ?E ?S v = indeg_from ?E (insert g ?S) v + int (count_list ?ns v)" for v
    by (rule indeg_from_insert [OF g(2)])
  have pre: "\<forall>v \<in> set ?ns. \<exists>d. map_of in_degree v = Some d \<and> int (count_list ?ns v) \<le> d"
  proof
    fix v assume "v \<in> set ?ns"
    with ns_gates have "v \<in> ?G" by blast
    from k5 [OF this] split [of v] indeg_from_nonneg [of ?E "insert g ?S" v]
    show "\<exists>d. map_of in_degree v = Some d \<and> int (count_list ?ns v) \<le> d"
      by simp
  qed
  from relax_result [OF pre, of queue] obtain in_degree' new where
    run: "relax ?ns in_degree queue = Inr (in_degree', queue @ new)"
    and keys: "map fst in_degree' = map fst in_degree"
    and vals: "\<And>v d. map_of in_degree v = Some d
                 \<Longrightarrow> map_of in_degree' v = Some (d - int (count_list ?ns v))"
    and dist: "distinct new"
    and new: "set new = {v \<in> set ?ns. map_of in_degree' v = Some 0}"
    by blast
  have k5': "map_of in_degree' v = Some (indeg_from ?E (insert g ?S) v)" if "v \<in> ?G" for v
    using vals [OF k5 [OF that]] split [of v] by simp
  have new_iff: "v \<in> set new \<longleftrightarrow> v \<in> set ?ns \<and> indeg_from ?E (insert g ?S) v = 0" for v
  proof (cases "v \<in> set ?ns")
    case True
    with ns_gates have "v \<in> ?G" by blast
    from k5' [OF this] True new show ?thesis by simp
  next
    case False
    with new show ?thesis by simp
  qed
  have new_gates: "set new \<subseteq> ?G"
    using new_iff ns_gates by blast
  have new_fresh: "v \<notin> set (sorted_gates @ g # queue)" if "v \<in> set new" for v
  proof -
    from that new_iff have "v \<in> set ?ns" by blast
    then have "count_list ?ns v \<noteq> 0" by (simp add: count_list_0_iff)
    with split [of v] indeg_from_nonneg [of ?E "insert g ?S" v]
    have "indeg_from ?E ?S v \<noteq> 0" by simp
    with k6 [of v] that new_gates show ?thesis by blast
  qed
  have k3': "distinct ((sorted_gates @ [g]) @ queue @ new)"
    using k3 dist new_fresh by auto
  have k4': "set ((sorted_gates @ [g]) @ queue @ new) \<subseteq> ?G"
    using k4 new_gates by auto
  have k6': "v \<in> set ((sorted_gates @ [g]) @ queue @ new)
               \<longleftrightarrow> indeg_from ?E (set (sorted_gates @ [g])) v = 0" if v: "v \<in> ?G" for v
  proof
    assume "v \<in> set ((sorted_gates @ [g]) @ queue @ new)"
    then consider "v \<in> set (sorted_gates @ g # queue)" | "v \<in> set new" by auto
    then show "indeg_from ?E (set (sorted_gates @ [g])) v = 0"
    proof cases
      case 1
      with k6 [OF v] have "indeg_from ?E ?S v = 0" by simp
      with split [of v] indeg_from_nonneg [of ?E "insert g ?S" v] show ?thesis by simp
    next
      case 2
      with new_iff show ?thesis by simp
    qed
  next
    assume zero: "indeg_from ?E (set (sorted_gates @ [g])) v = 0"
    show "v \<in> set ((sorted_gates @ [g]) @ queue @ new)"
    proof (cases "indeg_from ?E ?S v = 0")
      case True
      with k6 [OF v] show ?thesis by auto
    next
      case False
      with zero split [of v] have "count_list ?ns v \<noteq> 0" by simp
      then have "v \<in> set ?ns" by (simp add: count_list_0_iff)
      with zero new_iff [of v] show ?thesis by simp
    qed
  qed
  have k7': "appears_before (sorted_gates @ [g]) (fst e) (snd e)"
    if e: "e \<in> set ?E" and "snd e \<in> set (sorted_gates @ [g])" for e
  proof (cases "snd e \<in> ?S")
    case True
    from appears_before_append [OF k7 [OF e True]] show ?thesis .
  next
    case False
    with that have eq: "snd e = g" by simp
    from k6 [OF g(1)] have "indeg_from ?E ?S g = 0" by simp
    with e eq have "fst e \<in> ?S" by (auto simp: indeg_from_zero_iff)
    with g(2) eq show ?thesis by (simp add: appears_before_snoc)
  qed
  have "kahn_inv c graph (queue @ new) (sorted_gates @ [g]) in_degree'"
    unfolding kahn_inv_def
    using keys k1 k2 k3' k4' k5' k6' k7' by auto
  with k2 [OF g(1)] run show ?thesis by blast
qed

lemma kahn_loop_result:
  assumes "kahn_inv c graph queue sorted_gates in_degree"
  shows "\<exists>final. kahn_loop graph queue sorted_gates in_degree = Inr final \<and> kahn_final c final"
  using assms
proof (induction graph queue sorted_gates in_degree rule: kahn_loop.induct)
  case (1 graph sorted_gates in_degree)
  then show ?case
    by (simp add: kahn_inv_def kahn_final_def)
next
  case (2 graph gate_id queue sorted_gates in_degree)
  from kahn_step [OF "2.prems"] obtain in_degree' new where
    succ: "map_of graph gate_id = Some (successors (gate_edges c) gate_id)"
    and run: "relax (successors (gate_edges c) gate_id) in_degree queue = Inr (in_degree', queue @ new)"
    and inv: "kahn_inv c graph (queue @ new) (sorted_gates @ [gate_id]) in_degree'"
    by blast
  from "2.IH" [OF succ run refl inv] obtain final where
    "kahn_loop graph (queue @ new) (sorted_gates @ [gate_id]) in_degree' = Inr final"
    and "kahn_final c final"
    by blast
  with succ run show ?case by simp
qed

lemma map_of_const_entries:
  "k \<in> fst ` set xs \<Longrightarrow> map_of (map (\<lambda>kv. (fst kv, a)) xs) k = Some a"
  by (induction xs) auto

lemma initial_graph:
  assumes dist: "distinct (map fst (gates c))"
  shows "\<exists>graph in_degree.
           build_graph c (connections c) (map (\<lambda>kg. (fst kg, [])) (gates c))
             (map (\<lambda>kg. (fst kg, 0)) (gates c)) = Inr (graph, in_degree)
           \<and> kahn_inv c graph (map fst (filter (\<lambda>kd. snd kd = 0) in_degree)) [] in_degree"
proof -
  let ?G = "fst ` set (gates c)"
  let ?E = "gate_edges c"
  let ?g0 = "map (\<lambda>kg. (fst kg, [] :: string list)) (gates c)"
  let ?d0 = "map (\<lambda>kg. (fst kg, 0 :: int)) (gates c)"
  have keys0: "map fst ?g0 = map fst (gates c)" "map fst ?d0 = map fst (gates c)"
    by (simp_all add: comp_def)
  from build_graph_result [OF keys0, of "connections c"] obtain graph in_degree where
    run: "build_graph c (connections c) ?g0 ?d0 = Inr (graph, in_degree)"
    and keys: "map fst graph = map fst (gates c)" "map fst in_degree = map fst (gates c)"
    and g: "\<And>u ns. map_of ?g0 u = Some ns \<Longrightarrow> map_of graph u = Some (ns @ successors ?E u)"
    and d: "\<And>v k. map_of ?d0 v = Some k \<Longrightarrow> map_of in_degree v = Some (k + indeg_from ?E {} v)"
    unfolding gate_edges_def by blast
  have g0: "map_of ?g0 u = Some []" if "u \<in> ?G" for u
    using that by (rule map_of_const_entries)
  have d0: "map_of ?d0 v = Some 0" if "v \<in> ?G" for v
    using that by (rule map_of_const_entries)
  have k2: "map_of graph u = Some (successors ?E u)" if "u \<in> ?G" for u
    using g [OF g0 [OF that]] by simp
  have k5: "map_of in_degree v = Some (indeg_from ?E {} v)" if "v \<in> ?G" for v
    using d [OF d0 [OF that]] by simp
  let ?q = "map fst (filter (\<lambda>kd. snd kd = 0) in_degree)"
  have dist_deg: "distinct (map fst in_degree)"
    using keys dist by simp
  then have k3: "distinct ?q"
    by (rule distinct_map_filter)
  have k4: "set ?q \<subseteq> ?G"
  proof -
    have "set ?q \<subseteq> set (map fst in_degree)" by auto
    with keys show ?thesis by simp
  qed
  have k6: "v \<in> set ?q \<longleftrightarrow> indeg_from ?E {} v = 0" if "v \<in> ?G" for v
  proof -
    have "v \<in> set ?q \<longleftrightarrow> (v, 0) \<in> set in_degree"
      by force
    also have "\<dots> \<longleftrightarrow> map_of in_degree v = Some 0"
      using dist_deg by simp
    also have "\<dots> \<longleftrightarrow> indeg_from ?E {} v = 0"
      using k5 [OF that] by simp
    finally show ?thesis .
  qed
  have "kahn_inv c graph ?q [] in_degree"
    unfolding kahn_inv_def using keys k2 k3 k4 k5 k6 by simp
  with run show ?thesis by blast
qed

lemma topological_sort_final:
  assumes "distinct (map fst (gates c))"
  shows "\<exists>final. kahn_final c final
           \<and> topological_sort c = (if length final = length (gates c) then Inr final
                                    else Inl (ValueError CycleInCircuit))"
proof -
  from initial_graph [OF assms] obtain graph in_degree where
    run: "build_graph c (connections c) (map (\<lambda>kg. (fst kg, [])) (gates c))
             (map (\<lambda>kg. (fst kg, 0)) (gates c)) = Inr (graph, in_degree)"
    and inv: "kahn_inv c graph (map fst (filter (\<lambda>kd. snd kd = 0) in_degree)) [] in_degree"
    by blast
  from kahn_loop_result [OF inv] obtain final where
    "kahn_loop graph (map fst (filter (\<lambda>kd. snd kd = 0) in_degree)) [] in_degree = Inr final"
    and "kahn_final c final"
    by blast
  with run show ?thesis
    by (auto simp: topological_sort_def)
qed

lemma takeWhile_rank:
  "u \<in> set (takeWhile P xs) \<Longrightarrow>
   length (takeWhile (\<lambda>x. x \<noteq> u) xs) < length (takeWhile P xs)"
  by (induction xs) (auto split: if_splits)

lemma ordered_edges_acyclic:
  assumes "\<forall>e \<in> E. appears_before order (fst e) (snd e)"
  shows "acyclic E"
proof -
  let ?rank = "\<lambda>x. length (takeWhile (\<lambda>y. y \<noteq> x) order)"
  have "?rank b < ?rank a" if "(a, b) \<in> E\<inverse>" for a b
  proof -
    from that assms have "appears_before order b a" by auto
    then show ?thesis
      by (auto simp: appears_before_def intro: takeWhile_rank)
  qed
  then have "acyclic (E\<inverse>)"
    by (rule acyclicI_order)
  then show ?thesis by simp
qed

lemma kahn_final_all_gates:
  assumes final: "kahn_final c final" and acyc: "acyclic (set (gate_edges c))"
  shows "set final = fst ` set (gates c)"
proof (rule ccontr)
  let ?G = "fst ` set (gates c)"
  let ?E = "gate_edges c"
  assume "set final \<noteq> ?G"
  with final obtain x where x: "x \<in> ?G - set final"
    by (auto simp: kahn_final_def)
  have "wf (set ?E)"
    using acyc by (intro finite_acyclic_wf) simp_all
  from wfE_min [OF this x] obtain z where z: "z \<in> ?G - set final"
    and least: "\<And>y. (y, z) \<in> set ?E \<Longrightarrow> y \<notin> ?G - set final"
    by blast
  from final z have "indeg_from ?E (set final) z \<noteq> 0"
    by (auto simp: kahn_final_def)
  then obtain e where e: "e \<in> set ?E" "snd e = z" "fst e \<notin> set final"
    by (auto simp: indeg_from_zero_iff)
  then have "(fst e, z) \<in> set ?E" by auto
  moreover from this have "fst e \<in> ?G"
    using gate_edges_endpoints by blast
  ultimately show False
    using least e(3) by blast
qed

lemma kahn_final_length:
  assumes final: "kahn_final c final" and dist: "distinct (map fst (gates c))"
  shows "length final = length (gates c) \<longleftrightarrow> set final = fst ` set (gates c)"
proof
  assume len: "length final = length (gates c)"
  from final have d: "distinct final" and sub: "set final \<subseteq> set (map fst (gates c))"
    by (auto simp: kahn_final_def)
  have "card (set final) = card (set (map fst (gates c)))"
    using distinct_card [OF d] distinct_card [OF dist] len by simp
  with sub have "set final = set (map fst (gates c))"
    by (intro card_subset_eq) simp_all
  then show "set final = fst ` set (gates c)" by simp
next
  assume eq: "set final = fst ` set (gates c)"
  from final have d: "distinct final" by (simp add: kahn_final_def)
  have "length final = card (set final)" using distinct_card [OF d] by simp
  also have "\<dots> = card (set (map fst (gates c)))" using eq by simp
  also have "\<dots> = length (gates c)" using distinct_card [OF dist] by simp
  finally show "length final = length (gates c)" .
qed

lemma topological_sort_acyclic:
  assumes dist: "distinct (map fst (gates c))" and acyc: "acyclic (set (gate_edges c))"
  shows "\<exists>order. topological_sort c = Inr order \<and> distinct order
           \<and> set order = fst ` set (gates c)
           \<and> (\<forall>e \<in> set (gate_edges c). appears_before order (fst e) (snd e))"
proof -
  from topological_sort_final [OF dist] obtain final where
    final: "kahn_final c final"
    and sort: "topological_sort c = (if length final = length (gates c) then Inr final
                                     else Inl (ValueError CycleInCircuit))"
    by blast
  have all: "set final = fst ` set (gates c)"
    by (rule kahn_final_all_gates [OF final acyc])
  with kahn_final_length [OF final dist] sort have "topological_sort c = Inr final"
    by simp
  moreover have "\<forall>e \<in> set (gate_edges c). appears_before final (fst e) (snd e)"
  proof
    fix e assume e: "e \<in> set (gate_edges c)"
    then have "snd e \<in> set final"
      using gate_edges_endpoints [of "fst e" "snd e" c] all by simp
    with final e show "appears_before final (fst e) (snd e)"
      by (simp add: kahn_final_def)
  qed
  ultimately show ?thesis
    using final all by (auto simp: kahn_final_def)
qed

lemma topological_sort_cyclic:
  assumes dist: "distinct (map fst (gates c))" and cyc: "\<not> acyclic (set (gate_edges c))"
  shows "topological_sort c = Inl (ValueError CycleInCircuit)"
proof -
  from topological_sort_final [OF dist] obtain final where
    final: "kahn_final c final"
    and sort: "topological_sort c = (if length final = length (gates c) then Inr final
                                     else Inl (ValueError CycleInCircuit))"
    by blast
  have "length final \<noteq> length (gates c)"
  proof
    assume "length final = length (gates c)"
    with kahn_final_length [OF final dist] have all: "set final = fst ` set (gates c)"
      by simp
    have "\<forall>e \<in> set (gate_edges c). appears_before final (fst e) (snd e)"
    proof
      fix e assume e: "e \<in> set (gate_edges c)"
      then have "snd e \<in> set final"
        using gate_edges_endpoints [of "fst e" "snd e" c] all by simp
      with final e show "appears_before final (fst e) (snd e)"
        by (simp add: kahn_final_def)
    qed
    from ordered_edges_acyclic [OF this] cyc show False by simp
  qed
  with sort show ?thesis by simp
qed

text \<open>
  Claim C9. Let the gate dictionary have pairwise distinct keys. If the gate-to-gate
  connections are acyclic, the topological sort returns an order that contains every
  gate exactly once and in which, for every gate-to-gate connection, the feeding gate
  comes before the gate it feeds. If they contain a cycle, the sort fails with the
  cycle error (the \<open>ValueError\<close> of the length check), and so do the evaluation of the
  circuit (with the default assignment or any valid one) and the symbolic simulation
  pass of the hazard analysis.
\<close>

theorem topological_sort_sound_and_complete:
  assumes "distinct (map fst (gates c))"
  shows "(acyclic (set (gate_edges c)) \<longrightarrow>
            (\<exists>order. topological_sort c = Inr order \<and> distinct order
               \<and> set order = fst ` set (gates c)
               \<and> (\<forall>e \<in> set (gate_edges c). appears_before order (fst e) (snd e))))
       \<and> (\<not> acyclic (set (gate_edges c)) \<longrightarrow>
            topological_sort c = Inl (ValueError CycleInCircuit)
            \<and> compute_circuit c None = Inl (ValueError CycleInCircuit)
            \<and> (validate_input_values c given = Inr ()
                 \<longrightarrow> compute_circuit c (Some given) = Inl (ValueError CycleInCircuit))
            \<and> reverse_topological_sort c = Inl (ValueError CycleInCircuit)
            \<and> analyze_hazard_with_special_variable c var_id variable_name other_inputs
                = Inl (ValueError CycleInCircuit))"
proof (intro conjI impI)
  assume "acyclic (set (gate_edges c))"
  with assms show "\<exists>order. topological_sort c = Inr order \<and> distinct order
               \<and> set order = fst ` set (gates c)
               \<and> (\<forall>e \<in> set (gate_edges c). appears_before order (fst e) (snd e))"
    by (rule topological_sort_acyclic)
next
  assume "\<not> acyclic (set (gate_edges c))"
  with assms have cyc: "topological_sort c = Inl (ValueError CycleInCircuit)"
    by (rule topological_sort_cyclic)
  then show "topological_sort c = Inl (ValueError CycleInCircuit)" .
  from cyc show "compute_circuit c None = Inl (ValueError CycleInCircuit)"
    by (simp add: compute_circuit_def)
  from cyc show "reverse_topological_sort c = Inl (ValueError CycleInCircuit)"
    by (simp add: reverse_topological_sort_def)
  from cyc show "analyze_hazard_with_special_variable c var_id variable_name other_inputs
                = Inl (ValueError CycleInCircuit)"
    by (simp add: analyze_hazard_with_special_variable_def reverse_topological_sort_def)
  assume "validate_input_values c given = Inr ()"
  with cyc show "compute_circuit c (Some given) = Inl (ValueError CycleInCircuit)"
    by (simp add: compute_circuit_def)
qed

theorem topological_sort_examples:
  "acyclic (set (gate_edges or_and_circuit))
   \<and> topological_sort or_and_circuit = Inr [''g1'', ''g2'']
   \<and> appears_before [''g1'', ''g2''] ''g1'' ''g2''
   \<and> \<not> acyclic (set (gate_edges feedback_circuit))
   \<and> topological_sort feedback_circuit = Inl (ValueError CycleInCircuit)"
proof -
  have d1: "distinct (map fst (gates or_and_circuit))"
    and d2: "distinct (map fst (gates feedback_circuit))"
    by (simp_all add: or_and_circuit_def feedback_circuit_def)
  have s1: "topological_sort or_and_circuit = Inr [''g1'', ''g2'']"
    by code_simp
  have s2: "topological_sort feedback_circuit = Inl (ValueError CycleInCircuit)"
    by code_simp
  have "acyclic (set (gate_edges or_and_circuit))"
    using topological_sort_sound_and_complete [OF d1] s1 by fastforce
  moreover have "\<not> acyclic (set (gate_edges feedback_circuit))"
    using topological_sort_sound_and_complete [OF d2] s2 by fastforce
  moreover have "appears_before [''g1'', ''g2''] ''g1'' ''g2''"
    by (simp add: appears_before_def)
  ultimately show ?thesis
    using s1 s2 by simp
qed

subsection \<open>The symbolic simulation pass\<close>

lemma update_entries:
  "set (AList.update k v xs) \<subseteq> insert (k, v) (set xs)"
  by (induction xs) auto

lemma assign_port_sources:
  "snd ` set (assign_port ports source_id port_map) \<subseteq> insert source_id (snd ` set port_map)"
proof (induction ports)
  case Nil
  then show ?case by auto
next
  case (Cons port ports)
  show ?case
  proof (cases "has_key port_map port")
    case True
    with Cons show ?thesis by simp
  next
    case False
    then have "assign_port (port # ports) source_id port_map = AList.update port source_id port_map"
      by simp
    with update_entries [of port source_id port_map] show ?thesis
      by force
  qed
qed

lemma fold_port_sources:
  "snd ` set (fold (\<lambda>conn port_map. if conn_to conn = gate_id
                            then assign_port ports (conn_from conn) port_map
                            else port_map) conns port_map)
   \<subseteq> snd ` set port_map \<union> conn_from ` {conn \<in> set conns. conn_to conn = gate_id}"
proof (induction conns arbitrary: port_map)
  case Nil
  then show ?case by simp
next
  case (Cons conn conns)
  let ?f = "\<lambda>conn port_map. if conn_to conn = gate_id
              then assign_port ports (conn_from conn) port_map else port_map"
  let ?C = "\<lambda>xs. conn_from ` {x \<in> set xs. conn_to x = gate_id}"
  show ?case
  proof (cases "conn_to conn = gate_id")
    case True
    then have unfold: "fold ?f (conn # conns) port_map
                       = fold ?f conns (assign_port ports (conn_from conn) port_map)"
      by simp
    have "snd ` set (fold ?f conns (assign_port ports (conn_from conn) port_map))
          \<subseteq> snd ` set (assign_port ports (conn_from conn) port_map) \<union> ?C conns"
      by (rule Cons)
    also have "\<dots> \<subseteq> insert (conn_from conn) (snd ` set port_map) \<union> ?C conns"
      using assign_port_sources [of ports "conn_from conn" port_map] by blast
    also have "\<dots> = snd ` set port_map \<union> ?C (conn # conns)"
      using True by auto
    finally show ?thesis
      unfolding unfold .
  next
    case False
    then have unfold: "fold ?f (conn # conns) port_map = fold ?f conns port_map"
      by simp
    have "snd ` set (fold ?f conns port_map) \<subseteq> snd ` set port_map \<union> ?C conns"
      by (rule Cons)
    also have "\<dots> = snd ` set port_map \<union> ?C (conn # conns)"
      using False by auto
    finally show ?thesis
      unfolding unfold .
  qed
qed

lemma input_port_sources:
  "snd ` set (input_port_to_source c gate_id gate)
   \<subseteq> conn_from ` {conn \<in> set (connections c). conn_to conn = gate_id}"
  using fold_port_sources [of gate_id "g_inputs gate" "connections c" "[]"]
  by (simp add: input_port_to_source_def)

lemma collected_not_negated:
  assumes "clean_sources c circuit_state gate_id"
    and "pv \<in> set (collect_gate_inputs c gate_id gate circuit_state)"
  shows "\<not> is_negated (Some (snd pv))"
proof -
  from assms(2) obtain ps where ps: "ps \<in> set (input_port_to_source c gate_id gate)"
    and pv: "snd pv = (case map_of circuit_state (snd ps) of Some v \<Rightarrow> v | None \<Rightarrow> Const 0)"
    by (auto simp: collect_gate_inputs_def)
  from ps have "snd ps \<in> snd ` set (input_port_to_source c gate_id gate)"
    by (rule imageI)
  with input_port_sources [of c gate_id gate]
  have "snd ps \<in> conn_from ` {conn \<in> set (connections c). conn_to conn = gate_id}"
    by (rule subsetD)
  then obtain conn where
    "conn \<in> set (connections c)" "conn_to conn = gate_id" "snd ps = conn_from conn"
    by blast
  with assms(1) have "\<not> is_negated (map_of circuit_state (snd ps))"
    by (simp add: clean_sources_def)
  with pv show ?thesis
    by (auto simp: is_negated_def split: option.splits)
qed

lemma negated_var_ports_empty:
  assumes "\<forall>pv \<in> set gate_inputs. \<not> is_negated (Some (snd pv))"
  shows "negated_var_ports gate_inputs = []"
proof -
  have "fold (\<lambda>pv ports. case snd pv of
                 NegatedVariable var_id var_name \<Rightarrow> add_port var_id (fst pv) ports
               | _ \<Rightarrow> ports) xs acc = acc"
    if "\<forall>pv \<in> set xs. \<not> is_negated (Some (snd pv))" for xs and acc :: "(string \<times> string list) list"
    using that by (induction xs arbitrary: acc) (auto simp: is_negated_def split: sval.splits)
  from this [OF assms] show ?thesis
    by (simp add: negated_var_ports_def)
qed

lemma no_negated_no_hazard:
  assumes "\<forall>pv \<in> set gate_inputs. \<not> is_negated (Some (snd pv))"
  shows "check_gate_for_hazard gate gate_inputs = None"
proof -
  have "find (\<lambda>vp. has_key ([] :: (string \<times> string list) list) (fst vp)) xs = None" for xs :: "(string \<times> string list) list"
    by (induction xs) (simp_all add: has_key_def)
  then show ?thesis
    by (simp add: check_gate_for_hazard_def negated_var_ports_empty [OF assms])
qed

lemma simulate_no_hazard:
  assumes "bottom_up c todo"
    and "\<forall>g \<in> set todo. clean_sources c circuit_state g"
    and "set todo \<subseteq> fst ` set (gates c)"
  shows "simulate c todo circuit_state hazard_gates = Inr hazard_gates"
  using assms
proof (induction todo arbitrary: circuit_state)
  case Nil
  then show ?case by simp
next
  case (Cons g rest)
  from Cons.prems(3) obtain gate where gate: "map_of (gates c) g = Some gate"
    by (metis has_key_def has_key_iff list.set_intros(1) option.exhaust option.simps(4) subsetD)
  let ?inputs = "collect_gate_inputs c g gate circuit_state"
  let ?state = "AList.update g (compute_special_gate_output gate ?inputs) circuit_state"
  from Cons.prems(2) have "clean_sources c circuit_state g" by simp
  then have "\<forall>pv \<in> set ?inputs. \<not> is_negated (Some (snd pv))"
    using collected_not_negated by blast
  then have none: "check_gate_for_hazard gate ?inputs = None"
    by (rule no_negated_no_hazard)
  have clean: "\<forall>g' \<in> set rest. clean_sources c ?state g'"
  proof
    fix g' assume g': "g' \<in> set rest"
    show "clean_sources c ?state g'"
      unfolding clean_sources_def
    proof (intro ballI impI)
      fix conn assume conn: "conn \<in> set (connections c)" "conn_to conn = g'"
      with Cons.prems(1) g' have "conn_from conn \<noteq> g" by auto
      then have "map_of ?state (conn_from conn) = map_of circuit_state (conn_from conn)"
        by (simp add: update_conv')
      moreover from Cons.prems(2) g' conn
      have "\<not> is_negated (map_of circuit_state (conn_from conn))"
        by (simp add: clean_sources_def)
      ultimately show "\<not> is_negated (map_of ?state (conn_from conn))" by simp
    qed
  qed
  have "simulate c rest ?state hazard_gates = Inr hazard_gates"
    by (rule Cons.IH) (use Cons.prems clean in auto)
  with gate none show ?case by simp
qed

lemma collected_inputs_clean:
  assumes "bottom_up c todo"
    and "\<forall>g \<in> set todo. clean_sources c circuit_state g"
  shows "\<forall>gi \<in> set (collected_inputs c todo circuit_state).
           \<forall>pv \<in> set (snd gi). \<not> is_negated (Some (snd pv))"
  using assms
proof (induction todo arbitrary: circuit_state)
  case Nil
  then show ?case by simp
next
  case (Cons g rest)
  show ?case
  proof (cases "map_of (gates c) g")
    case None
    then show ?thesis by simp
  next
    case (Some gate)
    let ?inputs = "collect_gate_inputs c g gate circuit_state"
    let ?state = "AList.update g (compute_special_gate_output gate ?inputs) circuit_state"
    from Cons.prems(2) have "clean_sources c circuit_state g" by simp
    then have here: "\<forall>pv \<in> set ?inputs. \<not> is_negated (Some (snd pv))"
      using collected_not_negated by blast
    have clean: "\<forall>g' \<in> set rest. clean_sources c ?state g'"
    proof
      fix g' assume g': "g' \<in> set rest"
      show "clean_sources c ?state g'"
        unfolding clean_sources_def
      proof (intro ballI impI)
        fix conn assume conn: "conn \<in> set (connections c)" "conn_to conn = g'"
        with Cons.prems(1) g' have "conn_from conn \<noteq> g" by auto
        then have "map_of ?state (conn_from conn) = map_of circuit_state (conn_from conn)"
          by (simp add: update_conv')
        moreover from Cons.prems(2) g' conn
        have "\<not> is_negated (map_of circuit_state (conn_from conn))"
          by (simp add: clean_sources_def)
        ultimately show "\<not> is_negated (map_of ?state (conn_from conn))" by simp
      qed
    qed
    have "\<forall>gi \<in> set (collected_inputs c rest ?state).
            \<forall>pv \<in> set (snd gi). \<not> is_negated (Some (snd pv))"
      by (rule Cons.IH) (use Cons.prems(1) clean in auto)
    with here Some show ?thesis by simp
  qed
qed

lemma initial_state_clean: "clean_sources c (initial_state var_id variable_name other_inputs) g"
proof -
  have "\<not> is_negated (map_of (map (\<lambda>kv. (fst kv, Const (snd kv))) xs) u)" for xs :: "(string \<times> int) list" and u
    by (induction xs) (auto simp: is_negated_def)
  then show ?thesis
    by (auto simp: clean_sources_def initial_state_def update_conv' is_negated_def)
qed

lemma appears_before_butlast:
  assumes "appears_before (xs @ [g]) u v" and "v \<in> set xs"
  shows "appears_before xs u v"
  using assms by (simp add: appears_before_def)

lemma rev_order_bottom_up:
  assumes "distinct order" and "set order \<subseteq> fst ` set (gates c)"
    and "\<forall>e \<in> set (gate_edges c). snd e \<in> set order \<longrightarrow> appears_before order (fst e) (snd e)"
  shows "bottom_up c (rev order)"
  using assms
proof (induction order rule: rev_induct)
  case Nil
  then show ?case by simp
next
  case (snoc g xs)
  have feeds: "conn_to conn \<notin> set xs" if conn: "conn \<in> set (connections c)" "conn_from conn = g" for conn
  proof
    assume to: "conn_to conn \<in> set xs"
    with snoc.prems(2) conn have "gate_pair c conn"
      by (auto simp: gate_pair_def has_key_iff)
    with conn have "(g, conn_to conn) \<in> set (gate_edges c)"
      by (force simp: gate_edges_def edges_of_def)
    with snoc.prems(3) to have "appears_before (xs @ [g]) g (conn_to conn)"
      by force
    from appears_before_butlast [OF this to] have "g \<in> set xs"
      by (auto simp: appears_before_def dest: set_takeWhileD)
    with snoc.prems(1) show False by simp
  qed
  have "bottom_up c (rev xs)"
  proof (rule snoc.IH)
    show "distinct xs" using snoc.prems(1) by simp
    show "set xs \<subseteq> fst ` set (gates c)" using snoc.prems(2) by simp
    show "\<forall>e \<in> set (gate_edges c). snd e \<in> set xs \<longrightarrow> appears_before xs (fst e) (snd e)"
      using snoc.prems(3) appears_before_butlast by fastforce
  qed
  with feeds show ?case by auto
qed

lemma topological_sort_cases:
  assumes "distinct (map fst (gates c))"
  shows "(\<exists>order. topological_sort c = Inr order \<and> kahn_final c order)
         \<or> topological_sort c = Inl (ValueError CycleInCircuit)"
  using topological_sort_final [OF assms] by (auto split: if_splits)

lemma analyze_result:
  assumes "distinct (map fst (gates c))"
  shows "analyze_hazard_with_special_variable c var_id variable_name other_inputs
         = (case topological_sort c of Inl e \<Rightarrow> Inl e | Inr order \<Rightarrow> Inr None)
         \<and> (\<forall>order. topological_sort c = Inr order \<longrightarrow>
              simulate c (rev order) (initial_state var_id variable_name other_inputs) [] = Inr [])"
proof -
  have sim: "simulate c (rev order) (initial_state var_id variable_name other_inputs) [] = Inr []"
    if sort: "topological_sort c = Inr order" for order
  proof -
    from topological_sort_cases [OF assms] sort have final: "kahn_final c order"
      by auto
    then have "bottom_up c (rev order)"
      by (intro rev_order_bottom_up) (auto simp: kahn_final_def)
    moreover have "set (rev order) \<subseteq> fst ` set (gates c)"
      using final by (simp add: kahn_final_def)
    ultimately show ?thesis
      by (intro simulate_no_hazard) (simp_all add: initial_state_clean)
  qed
  have "analyze_hazard_with_special_variable c var_id variable_name other_inputs
         = (case topological_sort c of Inl e \<Rightarrow> Inl e | Inr order \<Rightarrow> Inr None)"
  proof (cases "topological_sort c")
    case (Inl e)
    then show ?thesis
      by (simp add: analyze_hazard_with_special_variable_def reverse_topological_sort_def)
  next
    case (Inr order)
    with sim [OF Inr] show ?thesis
      by (simp add: analyze_hazard_with_special_variable_def reverse_topological_sort_def)
  qed
  with sim show ?thesis by blast
qed

lemma analyze_combinations_result:
  assumes "distinct (map fst (gates c))"
  shows "analyze_combinations c var_id variable combos found
         = (if combos = [] then Inr found
            else case topological_sort c of Inl e \<Rightarrow> Inl e | Inr order \<Rightarrow> Inr found)"
proof (induction combos)
  case Nil
  then show ?case by simp
next
  case (Cons combo combos)
  from analyze_result [OF assms, of var_id variable combo]
  have one: "analyze_hazard_with_special_variable c var_id variable combo
             = (case topological_sort c of Inl e \<Rightarrow> Inl e | Inr order \<Rightarrow> Inr None)"
    by blast
  show ?case
  proof (cases "topological_sort c")
    case (Inl e)
    with one show ?thesis by simp
  next
    case (Inr order)
    with one Cons show ?thesis by simp
  qed
qed

lemma combinations_nonempty: "generate_all_input_combinations input_ids \<noteq> []"
  by (simp add: generate_all_input_combinations_def)

lemma analyze_variables_result:
  assumes "distinct (map fst (gates c))"
  shows "analyze_variables c infos found
         = (if infos = [] then Inr found
            else case topological_sort c of Inl e \<Rightarrow> Inl e | Inr order \<Rightarrow> Inr found)"
proof (induction infos)
  case Nil
  then show ?case by simp
next
  case (Cons info infos)
  show ?case
  proof (cases "topological_sort c")
    case (Inl e)
    then show ?thesis
      by (simp add: analyze_combinations_result [OF assms] combinations_nonempty)
  next
    case (Inr order)
    with Cons show ?thesis
      by (simp add: analyze_combinations_result [OF assms] combinations_nonempty)
  qed
qed

lemma sorted_bottom_up:
  assumes "distinct (map fst (gates c))" and "topological_sort c = Inr order"
  shows "bottom_up c (rev order)"
proof -
  from topological_sort_cases [OF assms(1)] assms(2) have "kahn_final c order"
    by auto
  then show ?thesis
    by (intro rev_order_bottom_up) (auto simp: kahn_final_def)
qed

text \<open>
  Claim C3. For every circuit (with pairwise distinct gate ids), every variable and
  every assignment of the other inputs, \<open>_analyze_hazard_with_special_variable\<close> returns
  no hazard: it returns \<open>None\<close>, or raises the cycle error. When the gates are sorted,
  they are processed in reverse topological order, so no input dictionary collected
  during the pass holds a negated variable and no gate is flagged. Hence the expression
  method returns the empty list (or fails), and the hazards that \<open>detect_hazards\<close>
  reports are those of the direct classification.
\<close>

theorem symbolic_pass_finds_nothing:
  assumes "distinct (map fst (gates c))"
  shows "(analyze_hazard_with_special_variable c var_id variable_name other_inputs = Inr None
          \<or> analyze_hazard_with_special_variable c var_id variable_name other_inputs
              = Inl (ValueError CycleInCircuit))
       \<and> (\<forall>order. topological_sort c = Inr order \<longrightarrow>
            (\<forall>gi \<in> set (collected_inputs c (rev order)
                           (initial_state var_id variable_name other_inputs)).
               \<forall>pv \<in> set (snd gi). \<not> is_negated (Some (snd pv)))
            \<and> simulate c (rev order) (initial_state var_id variable_name other_inputs) [] = Inr [])
       \<and> (detect_hazards_by_expression c = Inr []
          \<or> detect_hazards_by_expression c = Inl (ValueError CycleInCircuit))
       \<and> hazards (detect_hazards c)
           = (case detect_hazards_by_expression c of
                Inl e \<Rightarrow> [] | Inr found \<Rightarrow> check_direct_hazards c)"
proof -
  from analyze_result [OF assms, of var_id variable_name other_inputs]
  have one: "analyze_hazard_with_special_variable c var_id variable_name other_inputs
             = (case topological_sort c of Inl e \<Rightarrow> Inl e | Inr order \<Rightarrow> Inr None)"
    and sim: "\<forall>order. topological_sort c = Inr order \<longrightarrow>
            simulate c (rev order) (initial_state var_id variable_name other_inputs) [] = Inr []"
    by blast+
  have seen: "\<forall>gi \<in> set (collected_inputs c (rev order)
                           (initial_state var_id variable_name other_inputs)).
               \<forall>pv \<in> set (snd gi). \<not> is_negated (Some (snd pv))"
    if "topological_sort c = Inr order" for order
    by (rule collected_inputs_clean [OF sorted_bottom_up [OF assms that]])
       (simp add: initial_state_clean)
  have all: "detect_hazards_by_expression c
             = (if find_variables_with_negation c = [] then Inr []
                else case topological_sort c of Inl e \<Rightarrow> Inl e | Inr order \<Rightarrow> Inr [])"
    by (simp add: detect_hazards_by_expression_def analyze_variables_result [OF assms])
  from topological_sort_cases [OF assms] show ?thesis
  proof
    assume "\<exists>order. topological_sort c = Inr order \<and> kahn_final c order"
    then obtain order where sorted: "topological_sort c = Inr order" by blast
    with one all sim seen [OF sorted] show ?thesis
      by (simp add: detect_hazards_def run_detection_def)
  next
    assume "topological_sort c = Inl (ValueError CycleInCircuit)"
    with one all show ?thesis
      by (simp add: detect_hazards_def run_detection_def)
  qed
qed

theorem symbolic_pass_on_reconvergent_circuit:
  "distinct (map fst (gates (reconvergent_circuit 1 2 0 0 0)))
   \<and> simulate (reconvergent_circuit 1 2 0 0 0) [''g2'', ''g1''] (initial_state ''a'' ''A'' []) []
       = Inr []
   \<and> analyze_hazard_with_special_variable (reconvergent_circuit 1 2 0 0 0) ''a'' ''A'' [] = Inr None
   \<and> hazards (detect_hazards (reconvergent_circuit 1 2 0 0 0))
       = check_direct_hazards (reconvergent_circuit 1 2 0 0 0)"
proof -
  let ?c = "reconvergent_circuit 1 2 0 0 0"
  have d: "distinct (map fst (gates ?c))"
    by (simp add: reconvergent_fields)
  have s: "topological_sort ?c = Inr [''g1'', ''g2'']"
    by (rule reconvergent_sort)
  note pass = symbolic_pass_finds_nothing [OF d, of "''a''" "''A''" "[]"]
  from pass s have "simulate ?c (rev [''g1'', ''g2'']) (initial_state ''a'' ''A'' []) [] = Inr []"
    by blast
  then have sim: "simulate ?c [''g2'', ''g1''] (initial_state ''a'' ''A'' []) [] = Inr []"
    by simp
  have one: "analyze_hazard_with_special_variable ?c ''a'' ''A'' [] = Inr None"
    using s sim
    by (simp add: analyze_hazard_with_special_variable_def reverse_topological_sort_def)
  from pass have "hazards (detect_hazards ?c)
                  = (case detect_hazards_by_expression ?c of
                       Inl e \<Rightarrow> [] | Inr found \<Rightarrow> check_direct_hazards ?c)"
    by blast
  then have "hazards (detect_hazards ?c) = check_direct_hazards ?c"
    by (simp add: reconvergent_by_expression)
  with d sim one show ?thesis
    by blast
qed

subsection \<open>Evaluation with an absent and with an empty assignment\<close>

lemma initial_values_keys:
  "fst ` set (fold (\<lambda>kd d. AList.update (fst kd) (f kd) d) xs acc) = fst ` set acc \<union> fst ` set xs"
  by (induction xs arbitrary: acc) (auto simp: dom_update)

lemma validate_input_values_ok:
  "fst ` set given \<subseteq> fst ` set (inputs c) \<Longrightarrow> validate_input_values c given = Inr ()"
  by (induction given) (auto simp: has_key_iff)

lemma compute_circuit_default:
  "compute_circuit c None = compute_circuit c (Some (initial_values c))"
proof -
  have "fst ` set (initial_values c) \<subseteq> fst ` set (inputs c)"
    using initial_values_keys [of "\<lambda>kd. initial_value (snd kd)" "inputs c" "[]"]
    by (simp add: initial_values_def)
  then have "validate_input_values c (initial_values c) = Inr ()"
    by (rule validate_input_values_ok)
  then show ?thesis
    by (simp add: compute_circuit_def initial_values_def)
qed

text \<open>
  Claim C10 as stated fails: a circuit may contain a gate with a non-empty input list and
  still evaluate under the empty assignment, when the gates before it in topological
  order have no inputs. Here \<open>g1\<close> is an AND gate without inputs and \<open>g2 = NOT g1\<close>.
\<close>

theorem constant_gate_survives_empty_assignment:
  "map (\<lambda>kg. g_inputs (snd kg)) (gates constant_not_circuit) = [[], [''g1'']]
   \<and> compute_circuit constant_not_circuit (Some [])
       = Inr [(''g1'', 1), (''g2'', 0), (''out1'', 0)]"
  by code_simp

text \<open>
  Claim C10, amended. Called without an assignment, \<open>compute_circuit\<close> evaluates the
  circuit under the stored initial values. Called with the empty assignment it does not
  fall back to them: for every circuit with at least one gate in which every gate has
  a non-empty input list, \<open>compute_circuit({})\<close> raises a \<open>ValueError\<close>: the cycle
  error when the gate-to-gate connections are cyclic, and otherwise the error of the
  first gate in topological order, which finds no value for its first input.
\<close>

theorem empty_assignment_fails_when_all_gates_have_inputs:
  assumes dist: "distinct (map fst (gates c))"
    and some: "gates c \<noteq> []"
    and fed: "list_all (\<lambda>kg. g_inputs (snd kg) \<noteq> []) (gates c)"
  shows "compute_circuit c None = compute_circuit c (Some (initial_values c))
       \<and> (\<not> acyclic (set (gate_edges c))
            \<longrightarrow> compute_circuit c (Some []) = Inl (ValueError CycleInCircuit))
       \<and> (acyclic (set (gate_edges c))
            \<longrightarrow> (\<exists>gate_id order gate input_id rest.
                   topological_sort c = Inr (gate_id # order)
                   \<and> map_of (gates c) gate_id = Some gate
                   \<and> g_inputs gate = input_id # rest
                   \<and> compute_circuit c (Some [])
                       = Inl (ValueError (GateInputUnresolved gate_id input_id))))"
proof (intro conjI impI)
  show "compute_circuit c None = compute_circuit c (Some (initial_values c))"
    by (rule compute_circuit_default)
next
  assume "\<not> acyclic (set (gate_edges c))"
  with dist have "topological_sort c = Inl (ValueError CycleInCircuit)"
    by (rule topological_sort_cyclic)
  then show "compute_circuit c (Some []) = Inl (ValueError CycleInCircuit)"
    by (simp add: compute_circuit_def)
next
  assume "acyclic (set (gate_edges c))"
  with dist obtain sorted_gates where
    sort: "topological_sort c = Inr sorted_gates"
    and all: "set sorted_gates = fst ` set (gates c)"
    using topological_sort_acyclic by blast
  from all some obtain gate_id order where order: "sorted_gates = gate_id # order"
    by (cases sorted_gates) auto
  with all have "gate_id \<in> fst ` set (gates c)" by auto
  then obtain gate where gate: "map_of (gates c) gate_id = Some gate"
    by (metis map_of_eq_None_iff option.exhaust)
  then have "(gate_id, gate) \<in> set (gates c)"
    by (rule map_of_SomeD)
  with fed have "g_inputs gate \<noteq> []"
    by (auto simp: list_all_iff)
  then obtain input_id rest where ins: "g_inputs gate = input_id # rest"
    by (cases "g_inputs gate") auto
  have "compute_circuit c (Some []) = Inl (ValueError (GateInputUnresolved gate_id input_id))"
    using sort order gate ins by (simp add: compute_circuit_def)
  with sort order gate ins
  show "\<exists>gate_id order gate input_id rest.
          topological_sort c = Inr (gate_id # order)
          \<and> map_of (gates c) gate_id = Some gate
          \<and> g_inputs gate = input_id # rest
          \<and> compute_circuit c (Some [])
              = Inl (ValueError (GateInputUnresolved gate_id input_id))"
    by blast
qed

theorem or_and_circuit_empty_assignment:
  "distinct (map fst (gates or_and_circuit))
   \<and> list_all (\<lambda>kg. g_inputs (snd kg) \<noteq> []) (gates or_and_circuit)
   \<and> compute_circuit or_and_circuit (Some [])
       = Inl (ValueError (GateInputUnresolved ''g1'' ''b''))
   \<and> compute_circuit or_and_circuit None
       = Inr [(''a'', 0), (''b'', 0), (''c'', 0), (''g1'', 0), (''g2'', 0), (''out1'', 0)]"
proof -
  have d: "distinct (map fst (gates or_and_circuit))"
    and s: "gates or_and_circuit \<noteq> []"
    and f: "list_all (\<lambda>kg. g_inputs (snd kg) \<noteq> []) (gates or_and_circuit)"
    by (simp_all add: or_and_circuit_def)
  have iv: "initial_values or_and_circuit = [(''a'', 0), (''b'', 0), (''c'', 0)]"
    by code_simp
  have run: "compute_circuit or_and_circuit (Some [(''a'', 0), (''b'', 0), (''c'', 0)])
             = Inr [(''a'', 0), (''b'', 0), (''c'', 0), (''g1'', 0), (''g2'', 0), (''out1'', 0)]"
    by code_simp
  have e: "compute_circuit or_and_circuit (Some [])
           = Inl (ValueError (GateInputUnresolved ''g1'' ''b''))"
    by code_simp
  from empty_assignment_fails_when_all_gates_have_inputs [OF d s f]
  have "compute_circuit or_and_circuit None
        = compute_circuit or_and_circuit (Some (initial_values or_and_circuit))"
    by blast
  with iv run d f e show ?thesis by simp
qed

subsection \<open>The symbolic rules of the AND gate\<close>

lemma get_input_image:
  assumes "distinct (map fst gate_inputs)" and "set (map fst gate_inputs) = set ports"
  shows "get_input gate_inputs ` set ports = present gate_inputs"
proof -
  have "get_input gate_inputs p = v" if "(p, v) \<in> set gate_inputs" for p v
    using that assms(1) by (simp add: get_input_def)
  moreover have "\<exists>v. (p, v) \<in> set gate_inputs" if "p \<in> set ports" for p
    using that assms(2) by force
  moreover have "p \<in> set ports" if "(p, v) \<in> set gate_inputs" for p v
    using that assms(2) by force
  ultimately show ?thesis
    unfolding present_def by (force simp: image_iff)
qed

lemma fold_update_keys:
  "fst ` set (fold (\<lambda>x vars. case sel x of Some kv \<Rightarrow> AList.update (fst kv) (snd kv) vars
                                | None \<Rightarrow> vars) xs acc)
   = fst ` set acc \<union> {k. \<exists>x \<in> set xs. \<exists>v. sel x = Some (k, v)}"
proof (induction xs arbitrary: acc)
  case Nil
  then show ?case by simp
next
  case (Cons x xs)
  show ?case
    by (cases "sel x") (auto simp: Cons dom_update)
qed

lemma fold_update_distinct:
  "distinct (map fst acc) \<Longrightarrow>
   distinct (map fst (fold (\<lambda>x vars. case sel x of Some kv \<Rightarrow> AList.update (fst kv) (snd kv) vars
                                      | None \<Rightarrow> vars) xs acc))"
proof (induction xs arbitrary: acc)
  case Nil
  then show ?case by simp
next
  case (Cons x xs)
  show ?case
    by (cases "sel x") (auto intro!: Cons.IH simp: Cons.prems distinct_update)
qed

lemma fold_update_entries:
  "set (fold (\<lambda>x vars. case sel x of Some kv \<Rightarrow> AList.update (fst kv) (snd kv) vars
                         | None \<Rightarrow> vars) xs acc)
   \<subseteq> set acc \<union> {kv. \<exists>x \<in> set xs. sel x = Some kv}"
proof (induction xs arbitrary: acc)
  case Nil
  then show ?case by simp
next
  case (Cons x xs)
  show ?case
  proof (cases "sel x")
    case None
    with Cons [of acc] show ?thesis by auto
  next
    case (Some kv)
    with Cons [of "AList.update (fst kv) (snd kv) acc"] update_entries [of "fst kv" "snd kv" acc]
    show ?thesis by auto
  qed
qed

lemma special_vars_fold:
  "special_vars gate gate_inputs
   = fold (\<lambda>port vars. case select_special (get_input gate_inputs port) of
                          Some kv \<Rightarrow> AList.update (fst kv) (snd kv) vars | None \<Rightarrow> vars)
          (g_inputs gate) []"
proof -
  have "(\<lambda>port vars. case get_input gate_inputs port of
                          SpecialVariable var_id var_name \<Rightarrow>
                            AList.update var_id (SpecialVariable var_id var_name) vars
                        | _ \<Rightarrow> vars)
        = (\<lambda>port vars. case select_special (get_input gate_inputs port) of
                          Some kv \<Rightarrow> AList.update (fst kv) (snd kv) vars | None \<Rightarrow> vars)"
    by (auto simp: fun_eq_iff select_special_def split: sval.splits)
  then show ?thesis
    by (simp add: special_vars_def)
qed

lemma negated_vars_fold:
  "negated_vars gate gate_inputs
   = fold (\<lambda>port vars. case select_negated (get_input gate_inputs port) of
                          Some kv \<Rightarrow> AList.update (fst kv) (snd kv) vars | None \<Rightarrow> vars)
          (g_inputs gate) []"
proof -
  have "(\<lambda>port vars. case get_input gate_inputs port of
                          NegatedVariable var_id var_name \<Rightarrow>
                            AList.update var_id (NegatedVariable var_id var_name) vars
                        | _ \<Rightarrow> vars)
        = (\<lambda>port vars. case select_negated (get_input gate_inputs port) of
                          Some kv \<Rightarrow> AList.update (fst kv) (snd kv) vars | None \<Rightarrow> vars)"
    by (auto simp: fun_eq_iff select_negated_def split: sval.splits)
  then show ?thesis
    by (simp add: negated_vars_def)
qed

lemma select_special_Some:
  "select_special v = Some kv \<longleftrightarrow> snd kv = v \<and> token_key v = Some (True, fst kv)"
  by (cases v; cases kv) (auto simp: select_special_def token_key_def)

lemma select_negated_Some:
  "select_negated v = Some kv \<longleftrightarrow> snd kv = v \<and> token_key v = Some (False, fst kv)"
  by (cases v; cases kv) (auto simp: select_negated_def token_key_def)

lemma special_vars_keys:
  "fst ` set (special_vars gate gate_inputs)
   = {var_id. \<exists>v \<in> get_input gate_inputs ` set (g_inputs gate). token_key v = Some (True, var_id)}"
  unfolding special_vars_fold
  using fold_update_keys [of "\<lambda>port. select_special (get_input gate_inputs port)" "g_inputs gate" "[]"]
  by (auto simp: select_special_Some)

lemma negated_vars_keys:
  "fst ` set (negated_vars gate gate_inputs)
   = {var_id. \<exists>v \<in> get_input gate_inputs ` set (g_inputs gate). token_key v = Some (False, var_id)}"
  unfolding negated_vars_fold
  using fold_update_keys [of "\<lambda>port. select_negated (get_input gate_inputs port)" "g_inputs gate" "[]"]
  by (auto simp: select_negated_Some)

lemma special_vars_distinct: "distinct (map fst (special_vars gate gate_inputs))"
  unfolding special_vars_fold by (rule fold_update_distinct) simp

lemma negated_vars_distinct: "distinct (map fst (negated_vars gate gate_inputs))"
  unfolding negated_vars_fold by (rule fold_update_distinct) simp

lemma special_vars_entries:
  assumes "kv \<in> set (special_vars gate gate_inputs)"
  shows "snd kv \<in> get_input gate_inputs ` set (g_inputs gate)
         \<and> token_key (snd kv) = Some (True, fst kv)"
  using assms
    fold_update_entries [of "\<lambda>port. select_special (get_input gate_inputs port)" "g_inputs gate" "[]"]
  unfolding special_vars_fold
  by (auto simp: select_special_Some)

lemma negated_vars_entries:
  assumes "kv \<in> set (negated_vars gate gate_inputs)"
  shows "snd kv \<in> get_input gate_inputs ` set (g_inputs gate)
         \<and> token_key (snd kv) = Some (False, fst kv)"
  using assms
    fold_update_entries [of "\<lambda>port. select_negated (get_input gate_inputs port)" "g_inputs gate" "[]"]
  unfolding negated_vars_fold
  by (auto simp: select_negated_Some)

lemma add_port_keys: "fst ` set (add_port var_id input_port ports) = insert var_id (fst ` set ports)"
  by (simp add: add_port_def dom_update)

lemma fold_add_port_keys:
  "fst ` set (fold (\<lambda>pv ports. case sel (snd pv) of Some kv \<Rightarrow> add_port (fst kv) (fst pv) ports
                                 | None \<Rightarrow> ports) xs acc)
   = fst ` set acc \<union> {var_id. \<exists>pv \<in> set xs. \<exists>v. sel (snd pv) = Some (var_id, v)}"
proof (induction xs arbitrary: acc)
  case Nil
  then show ?case by simp
next
  case (Cons x xs)
  show ?case
    by (cases "sel (snd x)") (auto simp: Cons add_port_keys)
qed

lemma special_var_ports_fold:
  "special_var_ports gate_inputs
   = fold (\<lambda>pv ports. case select_special (snd pv) of
                         Some kv \<Rightarrow> add_port (fst kv) (fst pv) ports | None \<Rightarrow> ports)
          gate_inputs []"
proof -
  have "(\<lambda>pv ports. case snd pv of
                         SpecialVariable var_id var_name \<Rightarrow> add_port var_id (fst pv) ports
                       | _ \<Rightarrow> ports)
        = (\<lambda>pv ports. case select_special (snd pv) of
                         Some kv \<Rightarrow> add_port (fst kv) (fst pv) ports | None \<Rightarrow> ports)"
    by (auto simp: fun_eq_iff select_special_def split: sval.splits)
  then show ?thesis
    by (simp add: special_var_ports_def)
qed

lemma negated_var_ports_fold:
  "negated_var_ports gate_inputs
   = fold (\<lambda>pv ports. case select_negated (snd pv) of
                         Some kv \<Rightarrow> add_port (fst kv) (fst pv) ports | None \<Rightarrow> ports)
          gate_inputs []"
proof -
  have "(\<lambda>pv ports. case snd pv of
                         NegatedVariable var_id var_name \<Rightarrow> add_port var_id (fst pv) ports
                       | _ \<Rightarrow> ports)
        = (\<lambda>pv ports. case select_negated (snd pv) of
                         Some kv \<Rightarrow> add_port (fst kv) (fst pv) ports | None \<Rightarrow> ports)"
    by (auto simp: fun_eq_iff select_negated_def split: sval.splits)
  then show ?thesis
    by (simp add: negated_var_ports_def)
qed

lemma special_var_ports_keys:
  "fst ` set (special_var_ports gate_inputs)
   = {var_id. \<exists>v \<in> present gate_inputs. token_key v = Some (True, var_id)}"
  unfolding special_var_ports_fold fold_add_port_keys present_def
  by (auto simp: select_special_Some)

lemma negated_var_ports_keys:
  "fst ` set (negated_var_ports gate_inputs)
   = {var_id. \<exists>v \<in> present gate_inputs. token_key v = Some (False, var_id)}"
  unfolding negated_var_ports_fold fold_add_port_keys present_def
  by (auto simp: select_negated_Some)

lemma complementary_iff:
  "complementary gate_inputs \<longleftrightarrow>
     (\<exists>var_id. (\<exists>v \<in> present gate_inputs. token_key v = Some (True, var_id))
              \<and> (\<exists>v \<in> present gate_inputs. token_key v = Some (False, var_id)))"
proof -
  have "(\<exists>v \<in> A. token_key v = Some (True, var_id)) \<longleftrightarrow> (\<exists>n. SpecialVariable var_id n \<in> A)"
    for A var_id
  proof
    assume "\<exists>v \<in> A. token_key v = Some (True, var_id)"
    then obtain v where "v \<in> A" "token_key v = Some (True, var_id)" by blast
    then show "\<exists>n. SpecialVariable var_id n \<in> A"
      by (cases v) (auto simp: token_key_def)
  next
    assume "\<exists>n. SpecialVariable var_id n \<in> A"
    then obtain n where "SpecialVariable var_id n \<in> A" ..
    moreover have "token_key (SpecialVariable var_id n) = Some (True, var_id)"
      by (simp add: token_key_def)
    ultimately show "\<exists>v \<in> A. token_key v = Some (True, var_id)" by blast
  qed
  moreover have "(\<exists>v \<in> A. token_key v = Some (False, var_id)) \<longleftrightarrow> (\<exists>n. NegatedVariable var_id n \<in> A)"
    for A var_id
  proof
    assume "\<exists>v \<in> A. token_key v = Some (False, var_id)"
    then obtain v where "v \<in> A" "token_key v = Some (False, var_id)" by blast
    then show "\<exists>n. NegatedVariable var_id n \<in> A"
      by (cases v) (auto simp: token_key_def)
  next
    assume "\<exists>n. NegatedVariable var_id n \<in> A"
    then obtain n where "NegatedVariable var_id n \<in> A" ..
    moreover have "token_key (NegatedVariable var_id n) = Some (False, var_id)"
      by (simp add: token_key_def)
    ultimately show "\<exists>v \<in> A. token_key v = Some (False, var_id)" by blast
  qed
  ultimately show ?thesis
    unfolding complementary_def by simp
qed

lemma check_gate_for_hazard_flags:
  "check_gate_for_hazard gate gate_inputs \<noteq> None
   \<longleftrightarrow> 2 \<le> length (g_inputs gate) \<and> complementary gate_inputs"
proof -
  let ?S = "special_var_ports gate_inputs" and ?N = "negated_var_ports gate_inputs"
  let ?P = "\<lambda>vp. has_key ?N (fst vp)"
  have found: "find ?P ?S \<noteq> None \<longleftrightarrow> complementary gate_inputs"
  proof -
    have "find Q xs \<noteq> None \<longleftrightarrow> (\<exists>x \<in> set xs. Q x)"
      for Q :: "string \<times> string list \<Rightarrow> bool" and xs
      by (induction xs) simp_all
    then have "find ?P ?S \<noteq> None \<longleftrightarrow> (\<exists>vp \<in> set ?S. ?P vp)" .
    also have "\<dots> \<longleftrightarrow> (\<exists>var_id. var_id \<in> fst ` set ?S \<and> var_id \<in> fst ` set ?N)"
    proof
      assume "\<exists>vp \<in> set ?S. ?P vp"
      then obtain vp where "vp \<in> set ?S" "fst vp \<in> fst ` set ?N"
        by (auto simp only: has_key_iff)
      then have "fst vp \<in> fst ` set ?S \<and> fst vp \<in> fst ` set ?N"
        by (simp only: imageI simp_thms)
      then show "\<exists>var_id. var_id \<in> fst ` set ?S \<and> var_id \<in> fst ` set ?N" ..
    next
      assume "\<exists>var_id. var_id \<in> fst ` set ?S \<and> var_id \<in> fst ` set ?N"
      then obtain var_id where "var_id \<in> fst ` set ?S" "var_id \<in> fst ` set ?N" by blast
      then obtain vp where "vp \<in> set ?S" "fst vp = var_id" by (auto simp only: image_iff)
      with \<open>var_id \<in> fst ` set ?N\<close> have "vp \<in> set ?S \<and> ?P vp"
        by (simp only: has_key_iff simp_thms)
      then show "\<exists>vp \<in> set ?S. ?P vp" by (rule_tac bexI [of _ vp]) simp_all
    qed
    also have "\<dots> \<longleftrightarrow> complementary gate_inputs"
      unfolding special_var_ports_keys negated_var_ports_keys complementary_iff by simp
    finally show ?thesis .
  qed
  have inner: "map_of ?N (fst vp) \<noteq> None" if "find ?P ?S = Some vp" for vp
  proof -
    from that have "?P vp" by (auto simp: find_Some_iff)
    then show ?thesis by (simp add: has_key_def split: option.splits)
  qed
  show ?thesis
  proof (cases "find ?P ?S")
    case None
    with found show ?thesis by (simp add: check_gate_for_hazard_def)
  next
    case (Some vp)
    from inner [OF Some] obtain nps where "map_of ?N (fst vp) = Some nps" by blast
    with found Some show ?thesis
      by (simp add: check_gate_for_hazard_def)
  qed
qed

lemma check_gate_for_hazard_type:
  assumes "check_gate_for_hazard gate gate_inputs = Some h"
  shows "gh_type h = classify (g_type gate)"
proof (cases "find (\<lambda>vp. has_key (negated_var_ports gate_inputs) (fst vp))
                   (special_var_ports gate_inputs)")
  case None
  with assms show ?thesis
    by (simp add: check_gate_for_hazard_def split: if_splits)
next
  case (Some vp)
  with assms show ?thesis
    by (cases "map_of (negated_var_ports gate_inputs) (fst vp)")
       (auto simp: check_gate_for_hazard_def split: if_splits)
qed

lemma common_key_iff:
  "(\<exists>x \<in> set xs. has_key ys (fst x)) \<longleftrightarrow> (\<exists>k. k \<in> fst ` set xs \<and> k \<in> fst ` set ys)"
  unfolding has_key_iff by force

lemma list_ex_common_key:
  "list_ex (\<lambda>x. has_key ys (fst x)) xs \<longleftrightarrow> (\<exists>k. k \<in> fst ` set xs \<and> k \<in> fst ` set ys)"
  unfolding list_ex_iff by (rule common_key_iff)

lemma any_input_is:
  assumes "distinct (map fst gate_inputs)" and "set (map fst gate_inputs) = set (g_inputs gate)"
  shows "list_ex (\<lambda>port. get_input gate_inputs port = v) (g_inputs gate) \<longleftrightarrow> v \<in> present gate_inputs"
proof -
  have "list_ex (\<lambda>port. get_input gate_inputs port = v) (g_inputs gate)
        \<longleftrightarrow> v \<in> get_input gate_inputs ` set (g_inputs gate)"
    unfolding list_ex_iff by (simp add: image_iff eq_commute)
  then show ?thesis
    by (simp only: get_input_image [OF assms])
qed

lemma vars_complementary_iff:
  assumes "distinct (map fst gate_inputs)" and "set (map fst gate_inputs) = set (g_inputs gate)"
  shows "list_ex (\<lambda>sv. has_key (negated_vars gate gate_inputs) (fst sv)) (special_vars gate gate_inputs)
         \<longleftrightarrow> complementary gate_inputs"
  unfolding list_ex_common_key special_vars_keys negated_vars_keys get_input_image [OF assms]
    complementary_iff
  by simp

lemma all_regular_inputs_are_iff:
  assumes "distinct (map fst gate_inputs)" and "set (map fst gate_inputs) = set (g_inputs gate)"
  shows "all_regular_inputs_are k gate gate_inputs \<longleftrightarrow> constants_all k gate_inputs"
proof
  assume all: "all_regular_inputs_are k gate gate_inputs"
  have "v = k" if "Const v \<in> present gate_inputs" for v
  proof -
    from that obtain port where entry: "(port, Const v) \<in> set gate_inputs"
      by (auto simp: present_def)
    then have "port \<in> set (g_inputs gate)"
      using assms(2) by force
    moreover from entry have "map_of gate_inputs port = Some (Const v)"
      using assms(1) by simp
    ultimately show ?thesis
      using all by (force simp: all_regular_inputs_are_def list_all_iff)
  qed
  then show "constants_all k gate_inputs"
    by (simp add: constants_all_def)
next
  assume all: "constants_all k gate_inputs"
  have "case map_of gate_inputs port of Some (Const v) \<Rightarrow> v = k | _ \<Rightarrow> True" for port
  proof (cases "map_of gate_inputs port")
    case None
    then show ?thesis by simp
  next
    case (Some held)
    then have "held \<in> present gate_inputs"
      by (force simp: present_def dest: map_of_SomeD)
    with all Some show ?thesis
      by (cases held) (simp_all add: constants_all_def)
  qed
  then show "all_regular_inputs_are k gate gate_inputs"
    by (simp add: all_regular_inputs_are_def list_all_iff)
qed

lemma and_gate_output:
  assumes "g_type gate = ''AND''"
    and "distinct (map fst gate_inputs)" and "set (map fst gate_inputs) = set (g_inputs gate)"
  shows "compute_special_gate_output gate gate_inputs
         = (if Const 0 \<in> present gate_inputs then Const 0
            else if complementary gate_inputs then Const 0
            else if constants_all 1 gate_inputs then
              (case (special_vars gate gate_inputs, negated_vars gate gate_inputs) of
                 ([sv], []) \<Rightarrow> snd sv
               | ([], [nv]) \<Rightarrow> snd nv
               | ([], []) \<Rightarrow> Const 1
               | _ \<Rightarrow> Const 0)
            else Const 0)"
  unfolding compute_special_gate_output_def
    any_input_is [OF assms(2,3)] vars_complementary_iff [OF assms(2,3)]
    all_regular_inputs_are_iff [OF assms(2,3)]
  using assms(1) by simp

lemma single_key:
  assumes "distinct (map fst xs)" and "fst ` set xs = {k}"
  shows "\<exists>v. xs = [(k, v)]"
proof (cases xs)
  case Nil
  with assms(2) show ?thesis by simp
next
  case (Cons x rest)
  with assms(2) have "fst x = k" by auto
  have "rest = []"
  proof (cases rest)
    case Nil
    then show ?thesis .
  next
    case (Cons y more)
    with \<open>xs = x # rest\<close> assms(2) have "fst y = k" by auto
    with \<open>fst x = k\<close> assms(1) \<open>xs = x # rest\<close> Cons show ?thesis by simp
  qed
  with Cons \<open>fst x = k\<close> show ?thesis by (cases x) simp
qed

lemma two_keys:
  assumes "k1 \<in> fst ` set xs" and "k2 \<in> fst ` set xs" and "k1 \<noteq> k2"
  shows "\<exists>x y rest. xs = x # y # rest"
proof (cases xs)
  case Nil
  with assms(1) show ?thesis by simp
next
  case (Cons x rest)
  show ?thesis
  proof (cases rest)
    case Nil
    with Cons assms show ?thesis by auto
  next
    case (Cons y more)
    with \<open>xs = x # rest\<close> show ?thesis by simp
  qed
qed

lemma complementary_ports:
  assumes "distinct (map fst gate_inputs)" and "set (map fst gate_inputs) = set (g_inputs gate)"
    and "complementary gate_inputs"
  shows "2 \<le> length (g_inputs gate)"
proof -
  from assms(3) obtain var_id n1 n2 p1 p2
    where p1: "(p1, SpecialVariable var_id n1) \<in> set gate_inputs"
      and p2: "(p2, NegatedVariable var_id n2) \<in> set gate_inputs"
    by (auto simp: complementary_def present_def)
  have "p1 \<noteq> p2"
  proof
    assume "p1 = p2"
    with p1 p2 assms(1) have "SpecialVariable var_id n1 = NegatedVariable var_id n2"
      by (metis map_of_is_SomeI option.inject)
    then show False by simp
  qed
  moreover from p1 p2 assms(2) have "p1 \<in> set (g_inputs gate)" "p2 \<in> set (g_inputs gate)"
    by force+
  ultimately obtain x y rest where "g_inputs gate = x # y # rest"
    by (cases "g_inputs gate"; cases "tl (g_inputs gate)") auto
  then show ?thesis by simp
qed

lemma and_case_Const0:
  assumes "(\<exists>x y rest. S = x # y # rest) \<or> (\<exists>x y rest. N = x # y # rest) \<or> (S \<noteq> [] \<and> N \<noteq> [])"
  shows "(case (S, N) of
            ([sv], []) \<Rightarrow> snd sv
          | ([], [nv]) \<Rightarrow> snd nv
          | ([], []) \<Rightarrow> Const 1
          | _ \<Rightarrow> Const 0) = Const 0"
  using assms by (cases S; cases N; cases "tl S"; cases "tl N") auto

lemma token_key_cases:
  assumes "t \<in> symbolic_tokens gate_inputs"
  obtains pol var_id where "token_key t = Some (pol, var_id)" and "t \<in> present gate_inputs"
  using assms by (auto simp: symbolic_tokens_def)

lemma symbolic_tokensI:
  "v \<in> present gate_inputs \<Longrightarrow> token_key v = Some k \<Longrightarrow> v \<in> symbolic_tokens gate_inputs"
  by (simp add: symbolic_tokens_def)

lemma complementary_tokens:
  assumes "complementary gate_inputs"
  shows "\<exists>x \<in> symbolic_tokens gate_inputs. \<exists>y \<in> symbolic_tokens gate_inputs. token_key x \<noteq> token_key y"
proof -
  from assms obtain var_id n1 n2
    where s: "SpecialVariable var_id n1 \<in> present gate_inputs"
      and n: "NegatedVariable var_id n2 \<in> present gate_inputs"
    by (auto simp: complementary_def)
  have "SpecialVariable var_id n1 \<in> symbolic_tokens gate_inputs"
    by (rule symbolic_tokensI [where k = "(True, var_id)"]) (simp_all add: s token_key_def)
  moreover have "NegatedVariable var_id n2 \<in> symbolic_tokens gate_inputs"
    by (rule symbolic_tokensI [where k = "(False, var_id)"]) (simp_all add: n token_key_def)
  moreover have "token_key (SpecialVariable var_id n1) \<noteq> token_key (NegatedVariable var_id n2)"
    by (simp add: token_key_def)
  ultimately show ?thesis by blast
qed

lemma and_gate_zero:
  assumes "g_type gate = ''AND''"
    and "distinct (map fst gate_inputs)" and "set (map fst gate_inputs) = set (g_inputs gate)"
    and "Const 0 \<in> present gate_inputs \<or> complementary gate_inputs
         \<or> \<not> constants_all 1 gate_inputs"
  shows "compute_special_gate_output gate gate_inputs = Const 0"
  using assms(4) by (auto simp: and_gate_output [OF assms(1-3)])

lemma and_gate_single_token:
  assumes "g_type gate = ''AND''"
    and "distinct (map fst gate_inputs)" and "set (map fst gate_inputs) = set (g_inputs gate)"
    and t: "t \<in> symbolic_tokens gate_inputs"
    and same: "\<forall>x \<in> symbolic_tokens gate_inputs. token_key x = token_key t"
    and ones: "constants_all 1 gate_inputs"
  shows "compute_special_gate_output gate gate_inputs \<in> symbolic_tokens gate_inputs"
proof -
  let ?S = "special_vars gate gate_inputs" and ?N = "negated_vars gate gate_inputs"
  from t obtain pol var_id where key: "token_key t = Some (pol, var_id)"
    and present: "t \<in> present gate_inputs"
    by (rule token_key_cases)
  have only: "k = (pol, var_id)" if "v \<in> present gate_inputs" "token_key v = Some k" for v k
  proof -
    from that have "v \<in> symbolic_tokens gate_inputs" by (rule symbolic_tokensI)
    with same have "token_key v = token_key t" by blast
    with that(2) key show ?thesis by simp
  qed
  have no_zero: "Const 0 \<notin> present gate_inputs"
    using ones by (auto simp: constants_all_def)
  have no_pair: "\<not> complementary gate_inputs"
  proof
    assume "complementary gate_inputs"
    then obtain x y where "x \<in> symbolic_tokens gate_inputs" "y \<in> symbolic_tokens gate_inputs"
      "token_key x \<noteq> token_key y"
      using complementary_tokens by blast
    moreover from this same have "token_key x = token_key t" "token_key y = token_key t"
      by blast+
    ultimately show False by simp
  qed
  have out: "compute_special_gate_output gate gate_inputs
             = (case (?S, ?N) of
                  ([sv], []) \<Rightarrow> snd sv
                | ([], [nv]) \<Rightarrow> snd nv
                | ([], []) \<Rightarrow> Const 1
                | _ \<Rightarrow> Const 0)"
    using no_zero no_pair ones by (simp add: and_gate_output [OF assms(1-3)])
  have keysS: "fst ` set ?S = {k. \<exists>v \<in> present gate_inputs. token_key v = Some (True, k)}"
    by (simp only: special_vars_keys get_input_image [OF assms(2,3)])
  have keysN: "fst ` set ?N = {k. \<exists>v \<in> present gate_inputs. token_key v = Some (False, k)}"
    by (simp only: negated_vars_keys get_input_image [OF assms(2,3)])
  show ?thesis
  proof (cases pol)
    case True
    have "fst ` set ?S = {var_id}"
    proof (rule set_eqI)
      fix k
      show "k \<in> fst ` set ?S \<longleftrightarrow> k \<in> {var_id}"
      proof
        assume "k \<in> fst ` set ?S"
        then obtain v where "v \<in> present gate_inputs" "token_key v = Some (True, k)"
          unfolding keysS by blast
        from only [OF this] show "k \<in> {var_id}" by simp
      next
        assume "k \<in> {var_id}"
        with key True have "token_key t = Some (True, k)" by simp
        with present have "\<exists>v \<in> present gate_inputs. token_key v = Some (True, k)" ..
        then show "k \<in> fst ` set ?S"
          unfolding keysS by simp
      qed
    qed
    then obtain v where S: "?S = [(var_id, v)]"
      using single_key [OF special_vars_distinct] by blast
    have "fst ` set ?N = {}"
    proof (rule ccontr)
      assume "fst ` set ?N \<noteq> {}"
      then obtain k v where "v \<in> present gate_inputs" "token_key v = Some (False, k)"
        unfolding keysN by blast
      from only [OF this] True show False by simp
    qed
    then have N: "?N = []" by simp
    have "(var_id, v) \<in> set ?S" by (simp add: S)
    from special_vars_entries [OF this]
    have "v \<in> present gate_inputs" "token_key v = Some (True, var_id)"
      by (simp_all add: get_input_image [OF assms(2,3)])
    then have "v \<in> symbolic_tokens gate_inputs" by (rule symbolic_tokensI)
    then show ?thesis by (simp add: out S N)
  next
    case False
    have "fst ` set ?N = {var_id}"
    proof (rule set_eqI)
      fix k
      show "k \<in> fst ` set ?N \<longleftrightarrow> k \<in> {var_id}"
      proof
        assume "k \<in> fst ` set ?N"
        then obtain v where "v \<in> present gate_inputs" "token_key v = Some (False, k)"
          unfolding keysN by blast
        from only [OF this] show "k \<in> {var_id}" by simp
      next
        assume "k \<in> {var_id}"
        with key False have "token_key t = Some (False, k)" by simp
        with present have "\<exists>v \<in> present gate_inputs. token_key v = Some (False, k)" ..
        then show "k \<in> fst ` set ?N"
          unfolding keysN by simp
      qed
    qed
    then obtain v where N: "?N = [(var_id, v)]"
      using single_key [OF negated_vars_distinct] by blast
    have "fst ` set ?S = {}"
    proof (rule ccontr)
      assume "fst ` set ?S \<noteq> {}"
      then obtain k v where "v \<in> present gate_inputs" "token_key v = Some (True, k)"
        unfolding keysS by blast
      from only [OF this] False show False by simp
    qed
    then have S: "?S = []" by simp
    have "(var_id, v) \<in> set ?N" by (simp add: N)
    from negated_vars_entries [OF this]
    have "v \<in> present gate_inputs" "token_key v = Some (False, var_id)"
      by (simp_all add: get_input_image [OF assms(2,3)])
    then have "v \<in> symbolic_tokens gate_inputs" by (rule symbolic_tokensI)
    then show ?thesis by (simp add: out S N)
  qed
qed

lemma and_gate_no_token:
  assumes "g_type gate = ''AND''"
    and "distinct (map fst gate_inputs)" and "set (map fst gate_inputs) = set (g_inputs gate)"
    and none: "symbolic_tokens gate_inputs = {}"
    and ones: "constants_all 1 gate_inputs"
  shows "compute_special_gate_output gate gate_inputs = Const 1"
proof -
  let ?S = "special_vars gate gate_inputs" and ?N = "negated_vars gate gate_inputs"
  have no_key: "token_key v \<noteq> Some k" if "v \<in> present gate_inputs" for v k
  proof
    assume "token_key v = Some k"
    with that have "v \<in> symbolic_tokens gate_inputs" by (rule symbolic_tokensI)
    with none show False by simp
  qed
  have no_zero: "Const 0 \<notin> present gate_inputs"
    using ones by (auto simp: constants_all_def)
  have no_pair: "\<not> complementary gate_inputs"
    using complementary_tokens none by blast
  have "fst ` set ?S = {}"
    unfolding special_vars_keys get_input_image [OF assms(2,3)] using no_key by blast
  then have S: "?S = []" by simp
  have "fst ` set ?N = {}"
    unfolding negated_vars_keys get_input_image [OF assms(2,3)] using no_key by blast
  then have N: "?N = []" by simp
  show ?thesis
    using no_zero no_pair ones by (simp add: and_gate_output [OF assms(1-3)] S N)
qed

lemma and_gate_distinct_tokens:
  assumes "g_type gate = ''AND''"
    and "distinct (map fst gate_inputs)" and "set (map fst gate_inputs) = set (g_inputs gate)"
    and x: "x \<in> symbolic_tokens gate_inputs" and y: "y \<in> symbolic_tokens gate_inputs"
    and differ: "token_key x \<noteq> token_key y"
  shows "compute_special_gate_output gate gate_inputs = Const 0"
proof (cases "Const 0 \<in> present gate_inputs \<or> complementary gate_inputs
              \<or> \<not> constants_all 1 gate_inputs")
  case True
  then show ?thesis by (rule and_gate_zero [OF assms(1-3)])
next
  case False
  let ?S = "special_vars gate gate_inputs" and ?N = "negated_vars gate gate_inputs"
  have out: "compute_special_gate_output gate gate_inputs
             = (case (?S, ?N) of
                  ([sv], []) \<Rightarrow> snd sv
                | ([], [nv]) \<Rightarrow> snd nv
                | ([], []) \<Rightarrow> Const 1
                | _ \<Rightarrow> Const 0)"
    using False by (simp add: and_gate_output [OF assms(1-3)])
  have keysS: "fst ` set ?S = {k. \<exists>v \<in> present gate_inputs. token_key v = Some (True, k)}"
    by (simp only: special_vars_keys get_input_image [OF assms(2,3)])
  have keysN: "fst ` set ?N = {k. \<exists>v \<in> present gate_inputs. token_key v = Some (False, k)}"
    by (simp only: negated_vars_keys get_input_image [OF assms(2,3)])
  from x obtain px kx where kx: "token_key x = Some (px, kx)" and x_in: "x \<in> present gate_inputs"
    by (rule token_key_cases)
  from y obtain py ky where ky: "token_key y = Some (py, ky)" and y_in: "y \<in> present gate_inputs"
    by (rule token_key_cases)
  have inS: "k \<in> fst ` set ?S" if "v \<in> present gate_inputs" "token_key v = Some (True, k)" for v k
    unfolding keysS using that by blast
  have inN: "k \<in> fst ` set ?N" if "v \<in> present gate_inputs" "token_key v = Some (False, k)" for v k
    unfolding keysN using that by blast
  have "(\<exists>a b rest. ?S = a # b # rest) \<or> (\<exists>a b rest. ?N = a # b # rest) \<or> (?S \<noteq> [] \<and> ?N \<noteq> [])"
  proof (cases px; cases py)
    assume pol: "px" "py"
    have a: "kx \<in> fst ` set ?S" using inS [OF x_in] kx pol by simp
    have b: "ky \<in> fst ` set ?S" using inS [OF y_in] ky pol by simp
    from kx ky differ pol have "kx \<noteq> ky" by simp
    from two_keys [OF a b this] show ?thesis by simp
  next
    assume pol: "px" "\<not> py"
    have "kx \<in> fst ` set ?S" using inS [OF x_in] kx pol by simp
    then have "?S \<noteq> []" by auto
    moreover have "ky \<in> fst ` set ?N" using inN [OF y_in] ky pol by simp
    then have "?N \<noteq> []" by auto
    ultimately show ?thesis by simp
  next
    assume pol: "\<not> px" "py"
    have "kx \<in> fst ` set ?N" using inN [OF x_in] kx pol by simp
    then have "?N \<noteq> []" by auto
    moreover have "ky \<in> fst ` set ?S" using inS [OF y_in] ky pol by simp
    then have "?S \<noteq> []" by auto
    ultimately show ?thesis by simp
  next
    assume pol: "\<not> px" "\<not> py"
    have a: "kx \<in> fst ` set ?N" using inN [OF x_in] kx pol by simp
    have b: "ky \<in> fst ` set ?N" using inN [OF y_in] ky pol by simp
    from kx ky differ pol have "kx \<noteq> ky" by simp
    from two_keys [OF a b this] show ?thesis by simp
  qed
  then show ?thesis
    unfolding out by (rule and_case_Const0)
qed

text \<open>
  Claim C4.  For an AND gate and a valuation of exactly its input ports by constants and by
  the symbolic values of variables and their complements: a constant 0 among the inputs gives
  output 0; the gate is flagged exactly when a variable and its complement are both among the
  inputs, the gate then has at least two ports, the flag is a static-0 hazard and the output
  is 0; when exactly one symbolic token is present and every constant input is 1, the output
  is that token; when no symbolic token is present and every input is 1, the output is 1; in
  every other case the output is 0.  A token is identified by its polarity and its variable
  id, as the dictionaries of the code key it: when the tokens present all have one polarity
  and one variable id, the output is one of them.
\<close>

theorem and_gate_symbolic_rules:
  assumes "g_type gate = ''AND''"
    and "distinct (map fst gate_inputs)"
    and "set (map fst gate_inputs) = set (g_inputs gate)"
  shows "(Const 0 \<in> present gate_inputs \<longrightarrow>
            compute_special_gate_output gate gate_inputs = Const 0)
       \<and> ((check_gate_for_hazard gate gate_inputs \<noteq> None) = complementary gate_inputs)
       \<and> (\<forall>h. check_gate_for_hazard gate gate_inputs = Some h \<longrightarrow> gh_type h = Static0)
       \<and> (complementary gate_inputs \<longrightarrow>
            2 \<le> length (g_inputs gate)
            \<and> compute_special_gate_output gate gate_inputs = Const 0)
       \<and> (\<forall>t. symbolic_tokens gate_inputs = {t} \<and> constants_all 1 gate_inputs \<longrightarrow>
            compute_special_gate_output gate gate_inputs = t)
       \<and> (symbolic_tokens gate_inputs \<noteq> {}
            \<and> (\<forall>x \<in> symbolic_tokens gate_inputs. \<forall>y \<in> symbolic_tokens gate_inputs. token_key x = token_key y)
            \<and> constants_all 1 gate_inputs \<longrightarrow>
            compute_special_gate_output gate gate_inputs \<in> symbolic_tokens gate_inputs)
       \<and> (symbolic_tokens gate_inputs = {} \<and> constants_all 1 gate_inputs \<longrightarrow>
            compute_special_gate_output gate gate_inputs = Const 1)
       \<and> (\<not> constants_all 1 gate_inputs
            \<or> (\<exists>x \<in> symbolic_tokens gate_inputs. \<exists>y \<in> symbolic_tokens gate_inputs. token_key x \<noteq> token_key y) \<longrightarrow>
            compute_special_gate_output gate gate_inputs = Const 0)"
    (is "?c1 \<and> ?c2 \<and> ?c3 \<and> ?c4 \<and> ?c5 \<and> ?c6 \<and> ?c7 \<and> ?c8")
proof -
  let ?out = "compute_special_gate_output gate gate_inputs"
  note zero = and_gate_zero [OF assms]
  have c1: ?c1
  proof
    assume "Const 0 \<in> present gate_inputs"
    then have "Const 0 \<in> present gate_inputs \<or> complementary gate_inputs
               \<or> \<not> constants_all 1 gate_inputs" ..
    then show "?out = Const 0" by (rule zero)
  qed
  have ports: "2 \<le> length (g_inputs gate)" if "complementary gate_inputs"
    using assms(2,3) that by (rule complementary_ports)
  have c2: ?c2
  proof (cases "complementary gate_inputs")
    case True
    with ports check_gate_for_hazard_flags [of gate gate_inputs] show ?thesis by simp
  next
    case False
    with check_gate_for_hazard_flags [of gate gate_inputs] show ?thesis by simp
  qed
  have c3: ?c3
  proof (intro allI impI)
    fix h
    assume "check_gate_for_hazard gate gate_inputs = Some h"
    from check_gate_for_hazard_type [OF this] assms(1) show "gh_type h = Static0"
      by (simp add: classify_def)
  qed
  have c4: ?c4
  proof
    assume pair: "complementary gate_inputs"
    then have "Const 0 \<in> present gate_inputs \<or> complementary gate_inputs
               \<or> \<not> constants_all 1 gate_inputs" by simp
    then have "?out = Const 0" by (rule zero)
    with ports [OF pair] show "2 \<le> length (g_inputs gate) \<and> ?out = Const 0" by simp
  qed
  have c5: ?c5
  proof (intro allI impI)
    fix t
    assume "symbolic_tokens gate_inputs = {t} \<and> constants_all 1 gate_inputs"
    then have only: "symbolic_tokens gate_inputs = {t}" and ones: "constants_all 1 gate_inputs"
      by simp_all
    have "?out \<in> symbolic_tokens gate_inputs"
      by (rule and_gate_single_token [OF assms, of t]) (simp_all add: only ones)
    then show "?out = t" by (simp add: only)
  qed
  have c6: ?c6
  proof (intro impI, elim conjE)
    assume some: "symbolic_tokens gate_inputs \<noteq> {}"
      and same: "\<forall>x \<in> symbolic_tokens gate_inputs. \<forall>y \<in> symbolic_tokens gate_inputs. token_key x = token_key y"
      and ones: "constants_all 1 gate_inputs"
    from some obtain t where t: "t \<in> symbolic_tokens gate_inputs" by blast
    with same have "\<forall>x \<in> symbolic_tokens gate_inputs. token_key x = token_key t" by blast
    with t show "?out \<in> symbolic_tokens gate_inputs"
      using ones by (rule and_gate_single_token [OF assms])
  qed
  have c7: ?c7
  proof
    assume "symbolic_tokens gate_inputs = {} \<and> constants_all 1 gate_inputs"
    then have "symbolic_tokens gate_inputs = {}" and "constants_all 1 gate_inputs" by simp_all
    then show "?out = Const 1" by (rule and_gate_no_token [OF assms])
  qed
  have c8: ?c8
  proof
    assume "\<not> constants_all 1 gate_inputs
            \<or> (\<exists>x \<in> symbolic_tokens gate_inputs. \<exists>y \<in> symbolic_tokens gate_inputs. token_key x \<noteq> token_key y)"
    then show "?out = Const 0"
    proof
      assume "\<not> constants_all 1 gate_inputs"
      then have "Const 0 \<in> present gate_inputs \<or> complementary gate_inputs
                 \<or> \<not> constants_all 1 gate_inputs" by simp
      then show ?thesis by (rule zero)
    next
      assume "\<exists>x \<in> symbolic_tokens gate_inputs. \<exists>y \<in> symbolic_tokens gate_inputs. token_key x \<noteq> token_key y"
      then obtain x y where "x \<in> symbolic_tokens gate_inputs" "y \<in> symbolic_tokens gate_inputs"
        "token_key x \<noteq> token_key y" by blast
      then show ?thesis by (rule and_gate_distinct_tokens [OF assms])
    qed
  qed
  show ?thesis
    by (rule conjI [OF c1 conjI [OF c2 conjI [OF c3 conjI [OF c4
              conjI [OF c5 conjI [OF c6 conjI [OF c7 c8]]]]]]])
qed

theorem and_gate_token_and_hazard_examples:
  "compute_special_gate_output
     \<lparr>g_id = ''g1'', g_type = ''AND'', g_delay = 2,
      g_inputs = [''p1'', ''p2'', ''p3''], g_output = ''g1''\<rparr>
     [(''p1'', SpecialVariable ''a'' ''A''), (''p2'', Const 1),
      (''p3'', SpecialVariable ''a'' ''A'')]
   = SpecialVariable ''a'' ''A''
   \<and> map_option gh_type
       (check_gate_for_hazard
         \<lparr>g_id = ''g1'', g_type = ''AND'', g_delay = 2,
          g_inputs = [''p1'', ''p2''], g_output = ''g1''\<rparr>
         [(''p1'', SpecialVariable ''a'' ''A''), (''p2'', NegatedVariable ''a'' ''A'')])
     = Some Static0
   \<and> compute_special_gate_output
       \<lparr>g_id = ''g1'', g_type = ''AND'', g_delay = 2,
        g_inputs = [''p1'', ''p2''], g_output = ''g1''\<rparr>
       [(''p1'', SpecialVariable ''a'' ''A''), (''p2'', NegatedVariable ''a'' ''A'')]
     = Const 0"
proof -
  let ?g3 = "\<lparr>g_id = ''g1'', g_type = ''AND'', g_delay = 2,
              g_inputs = [''p1'', ''p2'', ''p3''], g_output = ''g1''\<rparr>"
  let ?v3 = "[(''p1'', SpecialVariable ''a'' ''A''), (''p2'', Const 1),
              (''p3'', SpecialVariable ''a'' ''A'')]"
  let ?g2 = "\<lparr>g_id = ''g1'', g_type = ''AND'', g_delay = 2,
              g_inputs = [''p1'', ''p2''], g_output = ''g1''\<rparr>"
  let ?v2 = "[(''p1'', SpecialVariable ''a'' ''A''), (''p2'', NegatedVariable ''a'' ''A'')]"
  have present3: "present ?v3 = {SpecialVariable ''a'' ''A'', Const 1}"
    by (auto simp: present_def)
  have tokens3: "symbolic_tokens ?v3 = {SpecialVariable ''a'' ''A''}"
    unfolding symbolic_tokens_def present3 by (auto simp: token_key_def)
  have ones3: "constants_all 1 ?v3"
    unfolding constants_all_def present3 by simp
  have pair2: "complementary ?v2"
    unfolding complementary_def present_def by auto
  from and_gate_symbolic_rules [of ?g3 ?v3] tokens3 ones3
  have "compute_special_gate_output ?g3 ?v3 = SpecialVariable ''a'' ''A''"
    by simp
  moreover from and_gate_symbolic_rules [of ?g2 ?v2] pair2
  have "map_option gh_type (check_gate_for_hazard ?g2 ?v2) = Some Static0
        \<and> compute_special_gate_output ?g2 ?v2 = Const 0"
    by auto
  ultimately show ?thesis by simp
qed

subsection \<open>Failures inside detect_hazards\<close>

lemma feedback_by_expression:
  "detect_hazards_by_expression feedback_circuit = Inl (ValueError CycleInCircuit)"
  by code_simp

lemma feedback_races:
  "detect_race_conditions feedback_circuit
   = [\<lparr>rc_gate_id = ''g4'', rc_gate_type = ''AND'', rc_input1 = ''a'', rc_input2 = ''b'',
       rc_delay1 = 0, rc_delay2 = 0\<rparr>]"
  by code_simp

lemma feedback_reconvergent_by_expression:
  "detect_hazards_by_expression feedback_reconvergent_circuit = Inl (ValueError CycleInCircuit)"
  by code_simp

lemma feedback_reconvergent_direct:
  "check_direct_hazards feedback_reconvergent_circuit
   = [\<lparr>hz_variable = ''A'', hz_other_inputs = None, hz_hazard_type = Static0,
       hz_hazard_gates =
         [\<lparr>hg_gate_id = ''g2'', hg_gate_type = ''AND'', hg_inputs = [''a'', ''g1''],
           hg_hazard_type = Static0, hg_critical = True\<rparr>]\<rparr>]"
  by code_simp

lemma feedback_reconvergent_races:
  "detect_race_conditions feedback_reconvergent_circuit
   = [\<lparr>rc_gate_id = ''g5'', rc_gate_type = ''AND'', rc_input1 = ''a'', rc_input2 = ''b'',
       rc_delay1 = 0, rc_delay2 = 0\<rparr>]"
  by code_simp

lemma by_expression_outcome:
  assumes "distinct (map fst (gates c))"
  shows "detect_hazards_by_expression c
         = (if find_variables_with_negation c \<noteq> [] \<and> \<not> acyclic (set (gate_edges c))
            then Inl (ValueError CycleInCircuit) else Inr [])"
proof (cases "acyclic (set (gate_edges c))")
  case True
  from topological_sort_acyclic [OF assms True] obtain order
    where "topological_sort c = Inr order" by blast
  with True show ?thesis
    by (simp add: detect_hazards_by_expression_def analyze_variables_result [OF assms])
next
  case False
  from topological_sort_cyclic [OF assms False] False show ?thesis
    by (simp add: detect_hazards_by_expression_def analyze_variables_result [OF assms])
qed

lemma simulation_failure_is_cycle:
  assumes "distinct (map fst (gates c))"
    and "analyze_hazard_with_special_variable c var_id variable_name other_inputs = Inl e"
  shows "\<not> acyclic (set (gate_edges c)) \<and> e = ValueError CycleInCircuit"
proof (cases "acyclic (set (gate_edges c))")
  case True
  from topological_sort_acyclic [OF assms(1) True] obtain order
    where "topological_sort c = Inr order" by blast
  with analyze_result [OF assms(1), of var_id variable_name other_inputs] assms(2)
  show ?thesis by simp
next
  case False
  from topological_sort_cyclic [OF assms(1) False]
    analyze_result [OF assms(1), of var_id variable_name other_inputs] assms(2) False
  show ?thesis by simp
qed

text \<open>
  Claim C5, as the code has it.  \<open>detect_hazards\<close> always returns the record with its two
  lists, but it guards two blocks only: the race sweep, and the hazard search as a whole.
  On the circuit below the symbolic simulation of the variable \<open>A\<close> raises the cycle
  error.  The direct method alone reports the static-0 hazard at \<open>g2\<close>, yet the hazards of
  \<open>detect_hazards\<close> are empty: the failure of that one simulation is not confined to its own
  findings, it empties the whole list and the direct method is never run.  The race at \<open>g5\<close>
  is still reported.
\<close>

theorem simulation_failure_drops_direct_findings:
  "analyze_hazard_with_special_variable feedback_reconvergent_circuit ''a'' ''A'' [(''b'', 0)]
     = Inl (ValueError CycleInCircuit)
   \<and> detect_hazards_by_expression feedback_reconvergent_circuit = Inl (ValueError CycleInCircuit)
   \<and> check_direct_hazards feedback_reconvergent_circuit
       = [\<lparr>hz_variable = ''A'', hz_other_inputs = None, hz_hazard_type = Static0,
           hz_hazard_gates =
             [\<lparr>hg_gate_id = ''g2'', hg_gate_type = ''AND'', hg_inputs = [''a'', ''g1''],
               hg_hazard_type = Static0, hg_critical = True\<rparr>]\<rparr>]
   \<and> detect_hazards feedback_reconvergent_circuit
       = \<lparr>race_conditions =
            [\<lparr>rc_gate_id = ''g5'', rc_gate_type = ''AND'', rc_input1 = ''a'', rc_input2 = ''b'',
              rc_delay1 = 0, rc_delay2 = 0\<rparr>],
          hazards = []\<rparr>"
proof -
  have "analyze_hazard_with_special_variable feedback_reconvergent_circuit ''a'' ''A'' [(''b'', 0)]
        = Inl (ValueError CycleInCircuit)"
    by code_simp
  then show ?thesis
    by (simp add: feedback_reconvergent_by_expression feedback_reconvergent_direct
        feedback_reconvergent_races detect_hazards_def run_detection_def)
qed

text \<open>
  Claim C5, amended.  For every circuit (with pairwise distinct gate ids) \<open>detect_hazards\<close>
  returns both lists and the race findings are those of the race sweep, whatever happens
  in the hazard search; were the race sweep to raise, only \<open>race_conditions\<close> would be
  emptied.  The hazard search fails exactly when some input feeds a NOT gate directly and
  the gate-to-gate connections contain a cycle, always with the cycle error; then the
  whole \<open>hazards\<close> list is empty and the findings of the direct method are lost with it.
  In every other case the hazards are exactly the findings of the direct method.  In
  particular, whenever the symbolic simulation of one of the analysed variables raises,
  for any assignment of the other inputs, the gate graph is cyclic and \<open>hazards\<close> is empty.
\<close>

theorem detect_hazards_failure_outcome:
  assumes "distinct (map fst (gates c))"
  shows "race_conditions (detect_hazards c) = detect_race_conditions c
       \<and> race_conditions (run_detection (Inl e) (detect_hazards_by_expression c)
                             (Inr (check_direct_hazards c))) = []
       \<and> hazards (run_detection (Inl e) (detect_hazards_by_expression c)
                     (Inr (check_direct_hazards c))) = hazards (detect_hazards c)
       \<and> detect_hazards_by_expression c
           = (if find_variables_with_negation c \<noteq> [] \<and> \<not> acyclic (set (gate_edges c))
              then Inl (ValueError CycleInCircuit) else Inr [])
       \<and> hazards (detect_hazards c)
           = (if find_variables_with_negation c \<noteq> [] \<and> \<not> acyclic (set (gate_edges c))
              then [] else check_direct_hazards c)
       \<and> (\<forall>info \<in> set (find_variables_with_negation c). \<forall>other_inputs e'.
            analyze_hazard_with_special_variable c (vi_id info) (vi_variable info) other_inputs
              = Inl e'
            \<longrightarrow> e' = ValueError CycleInCircuit \<and> \<not> acyclic (set (gate_edges c))
                \<and> hazards (detect_hazards c) = [])"
proof -
  note outcome = by_expression_outcome [OF assms]
  have races: "race_conditions (detect_hazards c) = detect_race_conditions c"
    by (simp add: detect_hazards_def run_detection_def)
  have sweep: "race_conditions (run_detection (Inl e) (detect_hazards_by_expression c)
                             (Inr (check_direct_hazards c))) = []"
    by (simp add: run_detection_def)
  have same: "hazards (run_detection (Inl e) (detect_hazards_by_expression c)
                     (Inr (check_direct_hazards c))) = hazards (detect_hazards c)"
    by (simp add: detect_hazards_def run_detection_def)
  have found: "hazards (detect_hazards c)
           = (if find_variables_with_negation c \<noteq> [] \<and> \<not> acyclic (set (gate_edges c))
              then [] else check_direct_hazards c)"
    by (simp add: detect_hazards_def run_detection_def outcome)
  have one: "\<forall>info \<in> set (find_variables_with_negation c). \<forall>other_inputs e'.
            analyze_hazard_with_special_variable c (vi_id info) (vi_variable info) other_inputs
              = Inl e'
            \<longrightarrow> e' = ValueError CycleInCircuit \<and> \<not> acyclic (set (gate_edges c))
                \<and> hazards (detect_hazards c) = []"
  proof (intro ballI allI impI)
    fix info other_inputs e'
    assume info: "info \<in> set (find_variables_with_negation c)"
      and raised: "analyze_hazard_with_special_variable c (vi_id info) (vi_variable info)
                     other_inputs = Inl e'"
    from info have "find_variables_with_negation c \<noteq> []" by auto
    moreover from simulation_failure_is_cycle [OF assms raised]
    have cyc: "\<not> acyclic (set (gate_edges c))" and err: "e' = ValueError CycleInCircuit"
      by simp_all
    ultimately have "hazards (detect_hazards c) = []"
      by (simp add: found)
    with cyc err
    show "e' = ValueError CycleInCircuit \<and> \<not> acyclic (set (gate_edges c))
          \<and> hazards (detect_hazards c) = []"
      by simp
  qed
  show ?thesis
    by (rule conjI [OF races conjI [OF sweep conjI [OF same conjI [OF outcome
              conjI [OF found one]]]]])
qed

theorem detect_hazards_on_example_circuits:
  "hazards (detect_hazards (reconvergent_circuit 1 2 0 0 0))
     = [\<lparr>hz_variable = ''A'', hz_other_inputs = None, hz_hazard_type = Static0,
         hz_hazard_gates =
           [\<lparr>hg_gate_id = ''g2'', hg_gate_type = ''AND'', hg_inputs = [''a'', ''g1''],
             hg_hazard_type = Static0, hg_critical = True\<rparr>]\<rparr>]
   \<and> \<not> acyclic (set (gate_edges feedback_circuit))
   \<and> detect_hazards feedback_circuit
       = \<lparr>race_conditions =
            [\<lparr>rc_gate_id = ''g4'', rc_gate_type = ''AND'', rc_input1 = ''a'', rc_input2 = ''b'',
              rc_delay1 = 0, rc_delay2 = 0\<rparr>],
          hazards = []\<rparr>"
proof -
  let ?r = "reconvergent_circuit 1 2 0 0 0"
  have d1: "distinct (map fst (gates ?r))"
    by (simp add: reconvergent_fields)
  have d2: "distinct (map fst (gates feedback_circuit))"
    by (simp add: feedback_circuit_def)
  note r = detect_hazards_failure_outcome [OF d1]
  note f = detect_hazards_failure_outcome [OF d2]
  from r have "detect_hazards_by_expression ?r
           = (if find_variables_with_negation ?r \<noteq> [] \<and> \<not> acyclic (set (gate_edges ?r))
              then Inl (ValueError CycleInCircuit) else Inr [])"
    by blast
  then have "\<not> (find_variables_with_negation ?r \<noteq> [] \<and> \<not> acyclic (set (gate_edges ?r)))"
    by (simp add: reconvergent_by_expression split: if_splits)
  moreover from r have "hazards (detect_hazards ?r)
           = (if find_variables_with_negation ?r \<noteq> [] \<and> \<not> acyclic (set (gate_edges ?r))
              then [] else check_direct_hazards ?r)"
    by blast
  ultimately have first: "hazards (detect_hazards ?r) = check_direct_hazards ?r"
    by auto
  from f have "detect_hazards_by_expression feedback_circuit
           = (if find_variables_with_negation feedback_circuit \<noteq> []
                 \<and> \<not> acyclic (set (gate_edges feedback_circuit))
              then Inl (ValueError CycleInCircuit) else Inr [])"
    by blast
  then have cyc: "find_variables_with_negation feedback_circuit \<noteq> []
                  \<and> \<not> acyclic (set (gate_edges feedback_circuit))"
    by (simp add: feedback_by_expression split: if_splits)
  moreover from f have "hazards (detect_hazards feedback_circuit)
           = (if find_variables_with_negation feedback_circuit \<noteq> []
                 \<and> \<not> acyclic (set (gate_edges feedback_circuit))
              then [] else check_direct_hazards feedback_circuit)"
    by blast
  ultimately have "hazards (detect_hazards feedback_circuit) = []"
    by simp
  moreover from f have "race_conditions (detect_hazards feedback_circuit)
                        = detect_race_conditions feedback_circuit"
    by blast
  ultimately have second: "detect_hazards feedback_circuit
       = \<lparr>race_conditions = detect_race_conditions feedback_circuit, hazards = []\<rparr>"
    by (cases "detect_hazards feedback_circuit") simp
  from first second cyc show ?thesis
    by (simp add: reconvergent_direct feedback_races)
qed

end
